theory Spec2Isabelle
  imports Complex_Main "HOL-Library.Word" "HOL-Library.Code_Target_Numeral"
begin

unbundle bit_operations_syntax

section \<open>Common data\<close>

text \<open>
  Python's exceptions are values: every function of the source that can raise returns
  \<open>py_error + 'a\<close>, with \<open>Inl\<close> for the exception that leaves the function.
\<close>

datatype py_error = AssertionError | IndexError | OverflowError | ValueError
  | ValidationError | UnboundLocalError | SerializationError

type_synonym byte = "8 word"
type_synonym bytes = "byte list"

text \<open>Epochs, slots, Gwei amounts and validator indices are the unsigned integers of the
  state tree; the arithmetic on them is Python's unbounded integer arithmetic.\<close>

type_synonym Epoch = nat
type_synonym Slot = nat
type_synonym Gwei = nat
type_synonym ValidatorIndex = nat

subsection \<open>Constants of \<open>eth2fastspec.py\<close>\<close>

definition GENESIS_EPOCH :: Epoch where "GENESIS_EPOCH = 0"
definition FAR_FUTURE_EPOCH :: Epoch where "FAR_FUTURE_EPOCH = 2 ^ 64 - 1"
definition MIN_PER_EPOCH_CHURN_LIMIT :: nat where "MIN_PER_EPOCH_CHURN_LIMIT = 4"
definition CHURN_LIMIT_QUOTIENT :: nat where "CHURN_LIMIT_QUOTIENT = 65536"
definition SHUFFLE_ROUND_COUNT :: nat where "SHUFFLE_ROUND_COUNT = 90"
definition SLOTS_PER_EPOCH :: nat where "SLOTS_PER_EPOCH = 32"
definition MAX_SEED_LOOKAHEAD :: nat where "MAX_SEED_LOOKAHEAD = 4"
definition SLOTS_PER_HISTORICAL_ROOT :: nat where "SLOTS_PER_HISTORICAL_ROOT = 8192"
definition MIN_VALIDATOR_WITHDRAWABILITY_DELAY :: nat where
  "MIN_VALIDATOR_WITHDRAWABILITY_DELAY = 256"
definition EPOCHS_PER_SLASHINGS_VECTOR :: nat where "EPOCHS_PER_SLASHINGS_VECTOR = 8192"
definition WHISTLEBLOWER_REWARD_QUOTIENT :: nat where "WHISTLEBLOWER_REWARD_QUOTIENT = 512"
definition PROPOSER_REWARD_QUOTIENT :: nat where "PROPOSER_REWARD_QUOTIENT = 8"
definition MIN_SLASHING_PENALTY_QUOTIENT :: nat where "MIN_SLASHING_PENALTY_QUOTIENT = 32"
definition MAX_DEPOSITS :: nat where "MAX_DEPOSITS = 16"

section \<open>The swap-or-not shuffle\<close>

text \<open>
  \<open>hash_eth2\<close> (SHA-256, from \<open>eth2._utils.hash\<close>) is not among the sources: the hash is the
  parameter \<open>H\<close> of everything below.
\<close>

text \<open>\<open>int.from_bytes(bs, byteorder="little")\<close>.\<close>

fun int_from_bytes :: "bytes \<Rightarrow> nat" where
  "int_from_bytes [] = 0"
| "int_from_bytes (b # bs) = unat b + 256 * int_from_bytes bs"

text \<open>\<open>n.to_bytes(length=len, byteorder="little")\<close> raises when \<open>n\<close> does not fit.\<close>

definition to_bytes :: "nat \<Rightarrow> nat \<Rightarrow> py_error + bytes" where
  "to_bytes n len =
     (if n \<ge> 256 ^ len then Inl OverflowError
      else Inr (map (\<lambda>k. of_nat (n div 256 ^ k)) [0..<len]))"

definition int_to_bytes :: "nat \<Rightarrow> nat \<Rightarrow> py_error + bytes" where
  "int_to_bytes n len = to_bytes n len"

text \<open>Indexing a byte string, and storing a byte into a bytearray.\<close>

definition byte_at :: "bytes \<Rightarrow> nat \<Rightarrow> py_error + byte" where
  "byte_at bs k = (if k < length bs then Inr (bs ! k) else Inl IndexError)"

definition set_byte :: "bytes \<Rightarrow> nat \<Rightarrow> nat \<Rightarrow> py_error + bytes" where
  "set_byte buf k v =
     (if k \<ge> length buf then Inl IndexError
      else if v \<ge> 256 then Inl ValueError
      else Inr (buf[k := of_nat v]))"

text \<open>The swap \<open>input[i], input[j] = input[j], input[i]\<close>.\<close>

definition swap_items :: "'a list \<Rightarrow> nat \<Rightarrow> nat \<Rightarrow> py_error + 'a list" where
  "swap_items input i j =
     (if i < length input \<and> j < length input
        then Inr (input[i := input ! j, j := input ! i])
      else Inl IndexError)"

definition SHUFFLE_H_SEED_SIZE :: nat where "SHUFFLE_H_SEED_SIZE = 32"
definition SHUFFLE_H_ROUND_SIZE :: nat where "SHUFFLE_H_ROUND_SIZE = 1"
definition SHUFFLE_H_POSITION_WINDOW_SIZE :: nat where "SHUFFLE_H_POSITION_WINDOW_SIZE = 4"
definition SHUFFLE_H_PIVOT_VIEW_SIZE :: nat where
  "SHUFFLE_H_PIVOT_VIEW_SIZE = SHUFFLE_H_SEED_SIZE + SHUFFLE_H_ROUND_SIZE"
definition SHUFFLE_H_TOTAL_SIZE :: nat where
  "SHUFFLE_H_TOTAL_SIZE =
     SHUFFLE_H_SEED_SIZE + SHUFFLE_H_ROUND_SIZE + SHUFFLE_H_POSITION_WINDOW_SIZE"

text \<open>
  The statement pair that occurs four times in \<open>_inner_shuffle_list\<close>:
  \<^verbatim>\<open>buf[_SHUFFLE_H_PIVOT_VIEW_SIZE:] = ((position >> 8) & 0xFFFF_FFFF).to_bytes(length=4, ...)\<close>
  followed by \<^verbatim>\<open>source = hash_eth2(buf)\<close>. It returns the buffer and the new source.
\<close>

definition rehash_position ::
  "(bytes \<Rightarrow> bytes) \<Rightarrow> bytes \<Rightarrow> nat \<Rightarrow> py_error + (bytes \<times> bytes)" where
  "rehash_position H buf position =
     (case to_bytes (drop_bit 8 position AND 0xFFFFFFFF) 4 of
        Inl err \<Rightarrow> Inl err
      | Inr window \<Rightarrow>
          let buf = take SHUFFLE_H_PIVOT_VIEW_SIZE buf @ window in Inr (buf, H buf))"

text \<open>
  The inner \<open>while i < mirror\<close> loop (the source has it twice, with the same body). It
  carries the buffer, the current source hash and the current byte of it, and the list.
\<close>

function swap_or_not_loop ::
  "(bytes \<Rightarrow> bytes) \<Rightarrow> nat \<Rightarrow> bytes \<Rightarrow> bytes \<Rightarrow> byte \<Rightarrow> nat \<Rightarrow> nat \<Rightarrow> 'a list
     \<Rightarrow> py_error + (bytes \<times> 'a list)" where
  "swap_or_not_loop H mirror buf source byteV i j input =
     (if i < mirror then
        (case (if j AND 0xFF = 0xFF then rehash_position H buf j else Inr (buf, source)) of
           Inl err \<Rightarrow> Inl err
         | Inr (buf, source) \<Rightarrow>
           (case (if j AND 0x7 = 0x7 then byte_at source (drop_bit 3 (j AND 0xFF))
                  else Inr byteV) of
              Inl err \<Rightarrow> Inl err
            | Inr byteV \<Rightarrow>
                let bitV = drop_bit (j AND 0x7) byteV AND 0x1 in
                (case (if bitV = 1 then swap_items input i j else Inr input) of
                   Inl err \<Rightarrow> Inl err
                 | Inr input \<Rightarrow>
                     swap_or_not_loop H mirror buf source byteV (i + 1) (j - 1) input)))
      else Inr (buf, input))"
  by pat_completeness auto
termination
  by (relation "measure (\<lambda>(H, mirror, buf, source, byteV, i, j, input). mirror - i)") auto

text \<open>One turn of the \<open>while True\<close> loop, up to the choice of the next round.\<close>

definition shuffle_round ::
  "(bytes \<Rightarrow> bytes) \<Rightarrow> nat \<Rightarrow> bytes \<Rightarrow> nat \<Rightarrow> 'a list \<Rightarrow> py_error + (bytes \<times> 'a list)" where
  "shuffle_round H listSize buf r input =
     (case set_byte buf SHUFFLE_H_SEED_SIZE r of
        Inl err \<Rightarrow> Inl err
      | Inr buf \<Rightarrow>
        let h = H (take SHUFFLE_H_PIVOT_VIEW_SIZE buf);
            pivot = int_from_bytes (take 8 h) mod listSize;
            mirror = drop_bit 1 (pivot + 1)
        in
        (case rehash_position H buf pivot of
           Inl err \<Rightarrow> Inl err
         | Inr (buf, source) \<Rightarrow>
           (case byte_at source (drop_bit 3 (pivot AND 0xFF)) of
              Inl err \<Rightarrow> Inl err
            | Inr byteV \<Rightarrow>
              (case swap_or_not_loop H mirror buf source byteV 0 pivot input of
                 Inl err \<Rightarrow> Inl err
               | Inr (buf, input) \<Rightarrow>
                 let mirror = drop_bit 1 (pivot + listSize + 1);
                     end = listSize - 1
                 in
                 (case rehash_position H buf end of
                    Inl err \<Rightarrow> Inl err
                  | Inr (buf, source) \<Rightarrow>
                    (case byte_at source (drop_bit 3 (end AND 0xFF)) of
                       Inl err \<Rightarrow> Inl err
                     | Inr byteV \<Rightarrow>
                         swap_or_not_loop H mirror buf source byteV (pivot + 1) end input))))))"

text \<open>
  The \<open>while True\<close> loop over the rounds. It leaves through one of its two \<open>break\<close>s; a
  run that never reaches one has no result (\<open>None\<close>).
\<close>

partial_function (option) shuffle_rounds ::
  "(bytes \<Rightarrow> bytes) \<Rightarrow> bool \<Rightarrow> nat \<Rightarrow> bytes \<Rightarrow> nat \<Rightarrow> 'a list \<Rightarrow> (py_error + 'a list) option" where
  "shuffle_rounds H dir listSize buf r input =
     (case shuffle_round H listSize buf r input of
        Inl err \<Rightarrow> Some (Inl err)
      | Inr (buf, input) \<Rightarrow>
          if dir then
            (let r = r + 1 in
             if r = SHUFFLE_ROUND_COUNT then Some (Inr input)
             else shuffle_rounds H dir listSize buf r input)
          else
            (if r = 0 then Some (Inr input)
             else shuffle_rounds H dir listSize buf (r - 1) input))"

declare shuffle_rounds.simps [code]

text \<open>\<open>_inner_shuffle_list\<close> mutates its argument; the model returns the list.\<close>

definition inner_shuffle_list ::
  "(bytes \<Rightarrow> bytes) \<Rightarrow> 'a list \<Rightarrow> bytes \<Rightarrow> bool \<Rightarrow> (py_error + 'a list) option" where
  "inner_shuffle_list H input seed dir =
     (if length input \<le> 1 then Some (Inr input)
      else
        let listSize = length input;
            buf = replicate SHUFFLE_H_TOTAL_SIZE 0;
            r = (if \<not> dir then SHUFFLE_ROUND_COUNT - 1 else 0);
            buf = seed @ drop SHUFFLE_H_SEED_SIZE buf
        in shuffle_rounds H dir listSize buf r input)"

definition shuffle_list :: "(bytes \<Rightarrow> bytes) \<Rightarrow> 'a list \<Rightarrow> bytes \<Rightarrow> (py_error + 'a list) option" where
  "shuffle_list H input seed = inner_shuffle_list H input seed True"

definition unshuffle_list :: "(bytes \<Rightarrow> bytes) \<Rightarrow> 'a list \<Rightarrow> bytes \<Rightarrow> (py_error + 'a list) option" where
  "unshuffle_list H input seed = inner_shuffle_list H input seed False"

text \<open>One round of \<open>compute_shuffled_index\<close>, and the loop over \<open>range(SHUFFLE_ROUND_COUNT)\<close>.\<close>

definition shuffled_index_round ::
  "(bytes \<Rightarrow> bytes) \<Rightarrow> bytes \<Rightarrow> nat \<Rightarrow> nat \<Rightarrow> ValidatorIndex \<Rightarrow> py_error + ValidatorIndex" where
  "shuffled_index_round H seed index_count current_round index =
     (case int_to_bytes current_round 1 of
        Inl err \<Rightarrow> Inl err
      | Inr round_byte \<Rightarrow>
        let pivot_bytez = take 8 (H (seed @ round_byte));
            pivot = int_from_bytes pivot_bytez mod index_count;
            flip = (pivot + index_count - index) mod index_count;
            position = max index flip
        in
        (case int_to_bytes (position div 256) 4 of
           Inl err \<Rightarrow> Inl err
         | Inr window \<Rightarrow>
           let source = H (seed @ round_byte @ window) in
           (case byte_at source ((position mod 256) div 8) of
              Inl err \<Rightarrow> Inl err
            | Inr byte \<Rightarrow>
                let bit = unat (drop_bit (position mod 8) byte) mod 2
                in Inr (if bit \<noteq> 0 then flip else index))))"

fun shuffled_index_rounds ::
  "(bytes \<Rightarrow> bytes) \<Rightarrow> bytes \<Rightarrow> nat \<Rightarrow> nat list \<Rightarrow> ValidatorIndex \<Rightarrow> py_error + ValidatorIndex" where
  "shuffled_index_rounds H seed index_count [] index = Inr index"
| "shuffled_index_rounds H seed index_count (current_round # rest) index =
     (case shuffled_index_round H seed index_count current_round index of
        Inl err \<Rightarrow> Inl err
      | Inr index \<Rightarrow> shuffled_index_rounds H seed index_count rest index)"

definition compute_shuffled_index ::
  "(bytes \<Rightarrow> bytes) \<Rightarrow> ValidatorIndex \<Rightarrow> nat \<Rightarrow> bytes \<Rightarrow> py_error + ValidatorIndex" where
  "compute_shuffled_index H index index_count seed =
     (if \<not> index < index_count then Inl AssertionError
      else shuffled_index_rounds H seed index_count [0..<SHUFFLE_ROUND_COUNT] index)"

section \<open>The beacon state\<close>

record Checkpoint =
  cp_epoch :: Epoch
  cp_root :: bytes

record Validator =
  pubkey :: bytes
  withdrawal_credentials :: bytes
  effective_balance :: Gwei
  slashed :: bool
  activation_eligibility_epoch :: Epoch
  activation_epoch :: Epoch
  exit_epoch :: Epoch
  withdrawable_epoch :: Epoch

record Eth1Data =
  deposit_root :: bytes
  deposit_count :: nat
  block_hash :: bytes

text \<open>The fields of \<open>BeaconState\<close> that the functions below read or write.\<close>

record BeaconState =
  slot :: Slot
  block_roots :: "bytes list"
  eth1_data :: Eth1Data
  eth1_deposit_index :: nat
  validators :: "Validator list"
  balances :: "Gwei list"
  slashings :: "Gwei list"
  justification_bits :: "bool list"
  previous_justified_checkpoint :: Checkpoint
  current_justified_checkpoint :: Checkpoint
  finalized_checkpoint :: Checkpoint

text \<open>\<open>ShufflingEpoch\<close> and \<open>EpochsContext\<close>, with the members the block operations use.\<close>

record ShufflingEpoch =
  epoch :: Epoch
  active_indices :: "ValidatorIndex list"

record EpochsContext =
  index2pubkey :: "bytes list"
  proposers :: "ValidatorIndex list"
  current_shuffling :: ShufflingEpoch

subsection \<open>Helpers\<close>

definition compute_epoch_at_slot :: "Slot \<Rightarrow> Epoch" where
  "compute_epoch_at_slot s = s div SLOTS_PER_EPOCH"

definition get_churn_limit :: "nat \<Rightarrow> nat" where
  "get_churn_limit active_validator_count =
     max MIN_PER_EPOCH_CHURN_LIMIT (active_validator_count div CHURN_LIMIT_QUOTIENT)"

definition compute_activation_exit_epoch :: "Epoch \<Rightarrow> Epoch" where
  "compute_activation_exit_epoch e = e + 1 + MAX_SEED_LOOKAHEAD"

definition compute_start_slot_at_epoch :: "Epoch \<Rightarrow> Slot" where
  "compute_start_slot_at_epoch e = e * SLOTS_PER_EPOCH"

text \<open>\<open>get_beacon_proposer\<close> asserts that the slot lies in the current shuffling's epoch
  and then reads the proposer table.\<close>

definition get_beacon_proposer :: "EpochsContext \<Rightarrow> Slot \<Rightarrow> py_error + ValidatorIndex" where
  "get_beacon_proposer epochs_ctx s =
     (if compute_epoch_at_slot s \<noteq> epoch (current_shuffling epochs_ctx) then Inl AssertionError
      else if s mod SLOTS_PER_EPOCH < length (proposers epochs_ctx)
        then Inr (proposers epochs_ctx ! (s mod SLOTS_PER_EPOCH))
      else Inl IndexError)"

section \<open>Validator exit\<close>

text \<open>
  Modelled from the spec: the \<open>Validator\<close> container (\<open>eth2.beacon.types.validators\<close>) is
  not among the sources. The spec has its four epochs "all in \<open>[0, FAR_FUTURE]\<close> where
  \<open>FAR_FUTURE = 2^64-1\<close>": they are 64-bit unsigned fields, and \<open>set\<close> refuses a value
  outside that range with a \<open>SerializationError\<close> instead of wrapping around.
\<close>

definition uint64_field :: "nat \<Rightarrow> py_error + nat" where
  "uint64_field v = (if v < 2 ^ 64 then Inr v else Inl SerializationError)"

text \<open>
  The exit queue epoch that \<open>initiate_validator_exit\<close> computes: the largest exit epoch in
  the registry (at least the activation-exit epoch of the current epoch), one later when
  the churn of that epoch is used up.
\<close>

definition exit_queue_epoch_of :: "EpochsContext \<Rightarrow> BeaconState \<Rightarrow> Epoch" where
  "exit_queue_epoch_of epochs_ctx state =
     (let current_epoch = epoch (current_shuffling epochs_ctx);
          exit_epochs = map exit_epoch
            (filter (\<lambda>v. exit_epoch v \<noteq> FAR_FUTURE_EPOCH) (validators state));
          exit_queue_epoch =
            Max (set (exit_epochs @ [compute_activation_exit_epoch current_epoch]));
          exit_queue_churn =
            length (filter (\<lambda>v. exit_epoch v = exit_queue_epoch) (validators state))
      in
      if exit_queue_churn
           \<ge> get_churn_limit (length (active_indices (current_shuffling epochs_ctx)))
      then exit_queue_epoch + 1 else exit_queue_epoch)"

text \<open>
  \<open>initiate_validator_exit\<close>: reading \<open>state.validators[index]\<close> raises when the index is
  out of range; a validator whose exit is already initiated leaves the state as it is;
  otherwise the exit queue epoch and the withdrawable epoch are stored with \<open>set\<close>, each
  of which raises when the value does not fit the field.
\<close>

definition initiate_validator_exit ::
  "EpochsContext \<Rightarrow> BeaconState \<Rightarrow> ValidatorIndex \<Rightarrow> py_error + BeaconState" where
  "initiate_validator_exit epochs_ctx state index =
     (if index \<ge> length (validators state) then Inl IndexError
      else
        let new_validator = validators state ! index in
        if exit_epoch new_validator \<noteq> FAR_FUTURE_EPOCH then Inr state
        else
          let exit_queue_epoch = exit_queue_epoch_of epochs_ctx state in
          (case uint64_field exit_queue_epoch of
             Inl err \<Rightarrow> Inl err
           | Inr stored_exit_epoch \<Rightarrow>
               let new_validator = new_validator\<lparr>exit_epoch := stored_exit_epoch\<rparr> in
               (case uint64_field
                       (exit_epoch new_validator + MIN_VALIDATOR_WITHDRAWABILITY_DELAY) of
                  Inl err \<Rightarrow> Inl err
                | Inr stored_withdrawable_epoch \<Rightarrow>
                    let new_validator =
                          new_validator\<lparr>withdrawable_epoch := stored_withdrawable_epoch\<rparr>
                    in Inr (state\<lparr>validators := (validators state)[index := new_validator]\<rparr>))))"

section \<open>Slashing a validator\<close>

text \<open>
  Modelled from the spec: \<open>decrease_balance\<close> and \<open>increase_balance\<close> are imported from
  \<open>eth2.beacon.epoch_processing_helpers\<close>, which is not among the sources. The spec has
  balances decremented "saturating at zero" and incremented by plain addition. Both
  address \<open>state.balances[index]\<close>, which raises when the index is out of range.
\<close>

definition decrease_balance :: "BeaconState \<Rightarrow> ValidatorIndex \<Rightarrow> Gwei \<Rightarrow> py_error + BeaconState" where
  "decrease_balance state index delta =
     (if index \<ge> length (balances state) then Inl IndexError
      else
        let balance = balances state ! index in
        Inr (state\<lparr>balances := (balances state)
               [index := (if delta > balance then 0 else balance - delta)]\<rparr>))"

definition increase_balance :: "BeaconState \<Rightarrow> ValidatorIndex \<Rightarrow> Gwei \<Rightarrow> py_error + BeaconState" where
  "increase_balance state index delta =
     (if index \<ge> length (balances state) then Inl IndexError
      else Inr (state\<lparr>balances := (balances state)[index := balances state ! index + delta]\<rparr>))"

text \<open>
  \<open>slash_validator\<close>. The optional \<open>whistleblower_index\<close> defaults to the proposer of the
  current slot. The writes to the slashings ring and to the registry address existing
  entries; an index outside the ring raises.
\<close>

definition slash_validator ::
  "EpochsContext \<Rightarrow> BeaconState \<Rightarrow> ValidatorIndex \<Rightarrow> ValidatorIndex option
     \<Rightarrow> py_error + BeaconState" where
  "slash_validator epochs_ctx state slashed_index whistleblower_index =
     (let e = epoch (current_shuffling epochs_ctx) in
      case initiate_validator_exit epochs_ctx state slashed_index of
        Inl err \<Rightarrow> Inl err
      | Inr state \<Rightarrow>
        let new_validator = validators state ! slashed_index;
            new_validator = new_validator\<lparr>slashed := True\<rparr>;
            new_validator = new_validator\<lparr>withdrawable_epoch :=
              max (withdrawable_epoch new_validator) (e + EPOCHS_PER_SLASHINGS_VECTOR)\<rparr>
        in
        if e mod EPOCHS_PER_SLASHINGS_VECTOR \<ge> length (slashings state) then Inl IndexError
        else
          let state = state\<lparr>slashings := (slashings state)
                [e mod EPOCHS_PER_SLASHINGS_VECTOR :=
                   slashings state ! (e mod EPOCHS_PER_SLASHINGS_VECTOR)
                     + effective_balance new_validator]\<rparr>;
              state = state\<lparr>validators := (validators state)[slashed_index := new_validator]\<rparr>
          in
          case decrease_balance state slashed_index
                 (effective_balance new_validator div MIN_SLASHING_PENALTY_QUOTIENT) of
            Inl err \<Rightarrow> Inl err
          | Inr state \<Rightarrow>
            (case get_beacon_proposer epochs_ctx (slot state) of
               Inl err \<Rightarrow> Inl err
             | Inr proposer_index \<Rightarrow>
               let whistleblower_index =
                     (case whistleblower_index of None \<Rightarrow> proposer_index | Some w \<Rightarrow> w);
                   whistleblower_reward =
                     effective_balance new_validator div WHISTLEBLOWER_REWARD_QUOTIENT;
                   proposer_reward = whistleblower_reward div PROPOSER_REWARD_QUOTIENT
               in
               (case increase_balance state proposer_index proposer_reward of
                  Inl err \<Rightarrow> Inl err
                | Inr state \<Rightarrow>
                    increase_balance state whistleblower_index
                      (whistleblower_reward - proposer_reward))))"

section \<open>BLS verification wrappers\<close>

text \<open>
  The \<open>milagro_bls_binding\<close> library is external. A call either returns its boolean, or
  raises an exception that is an instance of \<open>Exception\<close>, or raises one that is not (a
  \<open>BaseException\<close> outside \<open>Exception\<close>: \<open>KeyboardInterrupt\<close>, \<open>SystemExit\<close>, the
  \<open>PanicException\<close> of a Rust extension). Both kinds of raise carry the exception's name.
\<close>

datatype 'a call_outcome = Returns 'a | Raises string | RaisesBaseException string

text \<open>
  \<open>bls_Verify\<close> and \<open>bls_FastAggregateVerify\<close> have the shape
  \<^verbatim>\<open>try: result = call(...)  except Exception: result = False  finally: return result\<close>.
  The local \<open>result\<close> is bound by the assignment in the \<open>try\<close> block when the call returns
  and by the one in the handler when the call raises an \<open>Exception\<close>; any other raise
  skips the handler and leaves \<open>result\<close> unbound (\<open>None\<close> below). The \<open>return\<close> in the
  \<open>finally\<close> block then reads the local: it returns its value and drops the exception in
  flight, and on an unbound local it raises \<open>UnboundLocalError\<close> instead.
\<close>

definition finally_return_result :: "bool option \<Rightarrow> py_error + bool" where
  "finally_return_result result =
     (case result of None \<Rightarrow> Inl UnboundLocalError | Some b \<Rightarrow> Inr b)"

definition bls_Verify ::
  "(bytes \<Rightarrow> bytes \<Rightarrow> bytes \<Rightarrow> bool call_outcome) \<Rightarrow> bytes \<Rightarrow> bytes \<Rightarrow> bytes
     \<Rightarrow> py_error + bool" where
  "bls_Verify milagro_Verify PK message signature =
     (let result = (case milagro_Verify PK message signature of
                   Returns b \<Rightarrow> Some b
                 | Raises exc \<Rightarrow> Some False
                 | RaisesBaseException exc \<Rightarrow> None)
      in finally_return_result result)"

definition bls_FastAggregateVerify ::
  "(bytes list \<Rightarrow> bytes \<Rightarrow> bytes \<Rightarrow> bool call_outcome) \<Rightarrow> bytes list \<Rightarrow> bytes \<Rightarrow> bytes
     \<Rightarrow> py_error + bool" where
  "bls_FastAggregateVerify milagro_FastAggregateVerify pubkeys message signature =
     (let result = (case milagro_FastAggregateVerify pubkeys message signature of
                   Returns b \<Rightarrow> Some b
                 | Raises exc \<Rightarrow> Some False
                 | RaisesBaseException exc \<Rightarrow> None)
      in finally_return_result result)"

section \<open>Attester slashing\<close>

record AttestationData =
  ad_slot :: Slot
  ad_index :: nat
  beacon_block_root :: bytes
  source :: Checkpoint
  target :: Checkpoint

record IndexedAttestation =
  attesting_indices :: "ValidatorIndex list"
  data :: AttestationData
  signature :: bytes

record AttesterSlashing =
  attestation_1 :: IndexedAttestation
  attestation_2 :: IndexedAttestation

definition is_slashable_validator :: "Validator \<Rightarrow> Epoch \<Rightarrow> bool" where
  "is_slashable_validator validator e =
     ((\<not> slashed validator)
      \<and> (activation_epoch validator \<le> e \<and> e < withdrawable_epoch validator))"

definition is_slashable_attestation_data :: "AttestationData \<Rightarrow> AttestationData \<Rightarrow> bool" where
  "is_slashable_attestation_data data_1 data_2 =
     ((data_1 \<noteq> data_2 \<and> cp_epoch (target data_1) = cp_epoch (target data_2))
      \<or> (cp_epoch (source data_1) < cp_epoch (source data_2)
          \<and> cp_epoch (target data_2) < cp_epoch (target data_1)))"

text \<open>
  What \<open>is_valid_indexed_attestation\<close> takes from outside this file: the aggregate
  verification of the BLS library, and the signing root of the attestation data under the
  beacon-attester domain at the target epoch (\<open>get_domain\<close> followed by
  \<open>compute_signing_root\<close>, both imported from \<open>eth2.beacon.helpers\<close>).
\<close>

record crypto =
  milagro_FastAggregateVerify :: "bytes list \<Rightarrow> bytes \<Rightarrow> bytes \<Rightarrow> bool call_outcome"
  attester_signing_root :: "BeaconState \<Rightarrow> AttestationData \<Rightarrow> Epoch \<Rightarrow> bytes"

text \<open>The list comprehension \<open>[epochs_ctx.index2pubkey[i] for i in indices]\<close>.\<close>

fun lookup_pubkeys :: "bytes list \<Rightarrow> ValidatorIndex list \<Rightarrow> py_error + bytes list" where
  "lookup_pubkeys table [] = Inr []"
| "lookup_pubkeys table (i # rest) =
     (if i < length table then
        (case lookup_pubkeys table rest of
           Inl err \<Rightarrow> Inl err
         | Inr pks \<Rightarrow> Inr (table ! i # pks))
      else Inl IndexError)"

definition is_valid_indexed_attestation ::
  "crypto \<Rightarrow> EpochsContext \<Rightarrow> BeaconState \<Rightarrow> IndexedAttestation \<Rightarrow> py_error + bool" where
  "is_valid_indexed_attestation cr epochs_ctx state indexed_attestation =
     (let indices = attesting_indices indexed_attestation in
      if length indices = 0 \<or> \<not> (indices = sorted_list_of_set (set indices)) then Inr False
      else
        case lookup_pubkeys (index2pubkey epochs_ctx) indices of
          Inl err \<Rightarrow> Inl err
        | Inr pubkeys \<Rightarrow>
            let signing_root = attester_signing_root cr state (data indexed_attestation)
                                 (cp_epoch (target (data indexed_attestation)))
            in bls_FastAggregateVerify (milagro_FastAggregateVerify cr) pubkeys signing_root
                 (signature indexed_attestation))"

text \<open>A failed \<open>assert\<close> raises \<open>AssertionError\<close>; an exception inside the asserted
  expression leaves first.\<close>

definition py_assert :: "py_error + bool \<Rightarrow> (unit \<Rightarrow> py_error + 'a) \<Rightarrow> py_error + 'a" where
  "py_assert cond rest =
     (case cond of
        Inl err \<Rightarrow> Inl err
      | Inr ok \<Rightarrow> if ok then rest () else Inl AssertionError)"

text \<open>
  The loop of \<open>process_attester_slashing\<close> over the sorted intersection. It reads the
  slashability from \<open>validators\<close>, the registry of the state the function was called with,
  and carries the state and the flag \<open>slashed_any\<close>.
\<close>

fun slash_intersection ::
  "EpochsContext \<Rightarrow> Validator list \<Rightarrow> ValidatorIndex list \<Rightarrow> BeaconState \<times> bool
     \<Rightarrow> py_error + (BeaconState \<times> bool)" where
  "slash_intersection epochs_ctx vals [] acc = Inr acc"
| "slash_intersection epochs_ctx vals (index # rest) (state, slashed_any) =
     (if index \<ge> length vals then Inl IndexError
      else if is_slashable_validator (vals ! index) (epoch (current_shuffling epochs_ctx)) then
        (case slash_validator epochs_ctx state index None of
           Inl err \<Rightarrow> Inl err
         | Inr state' \<Rightarrow> slash_intersection epochs_ctx vals rest (state', True))
      else slash_intersection epochs_ctx vals rest (state, slashed_any))"

definition process_attester_slashing ::
  "crypto \<Rightarrow> EpochsContext \<Rightarrow> BeaconState \<Rightarrow> AttesterSlashing \<Rightarrow> py_error + BeaconState" where
  "process_attester_slashing cr epochs_ctx state attester_slashing =
     (let att_1 = attestation_1 attester_slashing;
          att_2 = attestation_2 attester_slashing
      in
      py_assert (Inr (is_slashable_attestation_data (data att_1) (data att_2))) (\<lambda>_.
      py_assert (is_valid_indexed_attestation cr epochs_ctx state att_1) (\<lambda>_.
      py_assert (is_valid_indexed_attestation cr epochs_ctx state att_2) (\<lambda>_.
        let att_set_1 = set (attesting_indices att_1);
            att_set_2 = set (attesting_indices att_2);
            indices = att_set_1 \<inter> att_set_2
        in
        case slash_intersection epochs_ctx (validators state)
               (sorted_list_of_set indices) (state, False) of
          Inl err \<Rightarrow> Inl err
        | Inr (state', slashed_any) \<Rightarrow>
            if slashed_any then Inr state' else Inl AssertionError))))"

section \<open>Justification and finalization\<close>

record EpochStakeSummary =
  source_stake :: Gwei
  target_stake :: Gwei
  head_stake :: Gwei

text \<open>The members of \<open>EpochProcess\<close> that justification reads.\<close>

record EpochProcess =
  prev_epoch :: Epoch
  current_epoch :: Epoch
  total_active_stake :: Gwei
  prev_epoch_unslashed_stake :: EpochStakeSummary
  curr_epoch_unslashed_target_stake :: Gwei

definition get_block_root_at_slot :: "BeaconState \<Rightarrow> Slot \<Rightarrow> py_error + bytes" where
  "get_block_root_at_slot state s =
     (if \<not> (s < slot state \<and> slot state \<le> s + SLOTS_PER_HISTORICAL_ROOT) then Inl AssertionError
      else if s mod SLOTS_PER_HISTORICAL_ROOT < length (block_roots state)
        then Inr (block_roots state ! (s mod SLOTS_PER_HISTORICAL_ROOT))
      else Inl IndexError)"

definition get_block_root :: "BeaconState \<Rightarrow> Epoch \<Rightarrow> py_error + bytes" where
  "get_block_root state e = get_block_root_at_slot state (compute_start_slot_at_epoch e)"

text \<open>
  One of the two justification steps: when \<open>stake * 3 >= total * 2\<close>, the current
  justified checkpoint becomes the checkpoint of epoch \<open>e\<close> and \<open>bits[k] = True\<close>.
\<close>

definition justify_epoch ::
  "bool \<Rightarrow> Epoch \<Rightarrow> nat \<Rightarrow> BeaconState \<times> bool list \<Rightarrow> py_error + (BeaconState \<times> bool list)" where
  "justify_epoch enough e k sb =
     (case sb of (state, bits) \<Rightarrow>
        if enough then
          (case get_block_root state e of
             Inl err \<Rightarrow> Inl err
           | Inr r \<Rightarrow>
               let state = state\<lparr>current_justified_checkpoint := \<lparr>cp_epoch = e, cp_root = r\<rparr>\<rparr>
               in if k < length bits then Inr (state, bits[k := True]) else Inl IndexError)
        else Inr (state, bits))"

definition process_justification_and_finalization ::
  "EpochsContext \<Rightarrow> EpochProcess \<Rightarrow> BeaconState \<Rightarrow> py_error + BeaconState" where
  "process_justification_and_finalization epochs_ctx process state =
     (let previous_epoch = prev_epoch process;
          cur_epoch = current_epoch process
      in
      if cur_epoch \<le> GENESIS_EPOCH + 1 then Inr state
      else
        let old_previous_justified_checkpoint = previous_justified_checkpoint state;
            old_current_justified_checkpoint = current_justified_checkpoint state;
            state = state\<lparr>previous_justified_checkpoint := current_justified_checkpoint state\<rparr>;
            bits = justification_bits state;
            bits = take 1 bits @ butlast bits
        in
        if length bits = 0 then Inl IndexError
        else
          let bits = bits[0 := False] in
          case justify_epoch
                 (target_stake (prev_epoch_unslashed_stake process) * 3
                    \<ge> total_active_stake process * 2)
                 previous_epoch 1 (state, bits) of
            Inl err \<Rightarrow> Inl err
          | Inr sb \<Rightarrow>
            (case justify_epoch
                    (curr_epoch_unslashed_target_stake process * 3
                       \<ge> total_active_stake process * 2)
                    cur_epoch 0 sb of
               Inl err \<Rightarrow> Inl err
             | Inr (state, bits) \<Rightarrow>
                 let state = state\<lparr>justification_bits := bits\<rparr> in
                 if length bits \<noteq> 4 then Inl AssertionError
                 else
                   let state =
                         (if list_all id (take 3 (drop 1 bits))
                             \<and> cp_epoch old_previous_justified_checkpoint + 3 = cur_epoch
                          then state\<lparr>finalized_checkpoint := old_previous_justified_checkpoint\<rparr>
                          else state);
                       state =
                         (if list_all id (take 2 (drop 1 bits))
                             \<and> cp_epoch old_previous_justified_checkpoint + 2 = cur_epoch
                          then state\<lparr>finalized_checkpoint := old_previous_justified_checkpoint\<rparr>
                          else state);
                       state =
                         (if list_all id (take 3 bits)
                             \<and> cp_epoch old_current_justified_checkpoint + 2 = cur_epoch
                          then state\<lparr>finalized_checkpoint := old_current_justified_checkpoint\<rparr>
                          else state);
                       state =
                         (if list_all id (take 2 bits)
                             \<and> cp_epoch old_current_justified_checkpoint + 1 = cur_epoch
                          then state\<lparr>finalized_checkpoint := old_current_justified_checkpoint\<rparr>
                          else state)
                   in Inr state))"

section \<open>Block operations\<close>

text \<open>The block body: five lists of operations, of types kept abstract here.\<close>

record ('ps, 'as, 'at, 'dp, 've) BeaconBlockBody =
  proposer_slashings :: "'ps list"
  attester_slashings :: "'as list"
  attestations :: "'at list"
  deposits :: "'dp list"
  voluntary_exits :: "'ve list"

text \<open>
  A handler is one of \<open>process_proposer_slashing\<close>, \<open>process_attester_slashing\<close>,
  \<open>process_attestation\<close>, \<open>process_deposit\<close>, \<open>process_voluntary_exit\<close>: it takes the
  epochs context and the state and returns the next state or raises. The context is a
  mutable object (\<open>process_deposit\<close> syncs its pubkey tables), so the handler returns it too.
\<close>

type_synonym 'op handler =
  "EpochsContext \<Rightarrow> BeaconState \<Rightarrow> 'op \<Rightarrow> py_error + (EpochsContext \<times> BeaconState)"

record ('ps, 'as, 'at, 'dp, 've) handlers =
  process_proposer_slashing :: "'ps handler"
  process_attester_slashing_op :: "'as handler"
  process_attestation :: "'at handler"
  process_deposit :: "'dp handler"
  process_voluntary_exit :: "'ve handler"

text \<open>The inner loop \<open>for operation in operations: state = function(epochs_ctx, state, operation)\<close>.\<close>

fun apply_operations ::
  "'op handler \<Rightarrow> 'op list \<Rightarrow> EpochsContext \<times> BeaconState
     \<Rightarrow> py_error + (EpochsContext \<times> BeaconState)" where
  "apply_operations function [] cs = Inr cs"
| "apply_operations function (operation # rest) (epochs_ctx, state) =
     (case function epochs_ctx state operation of
        Inl err \<Rightarrow> Inl err
      | Inr cs' \<Rightarrow> apply_operations function rest cs')"

definition process_operations ::
  "('ps, 'as, 'at, 'dp, 've) handlers \<Rightarrow> EpochsContext \<Rightarrow> BeaconState
     \<Rightarrow> ('ps, 'as, 'at, 'dp, 've) BeaconBlockBody
     \<Rightarrow> py_error + (EpochsContext \<times> BeaconState)" where
  "process_operations fs epochs_ctx state body =
     (if int (length (deposits body))
           \<noteq> min (int MAX_DEPOSITS)
                 (int (deposit_count (eth1_data state)) - int (eth1_deposit_index state))
      then Inl AssertionError
      else
        case apply_operations (process_proposer_slashing fs) (proposer_slashings body)
               (epochs_ctx, state) of
          Inl err \<Rightarrow> Inl err
        | Inr cs \<Rightarrow>
        (case apply_operations (process_attester_slashing_op fs) (attester_slashings body) cs of
          Inl err \<Rightarrow> Inl err
        | Inr cs \<Rightarrow>
        (case apply_operations (process_attestation fs) (attestations body) cs of
          Inl err \<Rightarrow> Inl err
        | Inr cs \<Rightarrow>
        (case apply_operations (process_deposit fs) (deposits body) cs of
          Inl err \<Rightarrow> Inl err
        | Inr cs \<Rightarrow>
            apply_operations (process_voluntary_exit fs) (voluntary_exits body) cs))))"

text \<open>
  For stating the order of application: an operation tagged with its kind, the handler it
  is given to, and a single pass over one list of tagged operations.
\<close>

datatype ('ps, 'as, 'at, 'dp, 've) operation =
    ProposerSlashingOp 'ps
  | AttesterSlashingOp 'as
  | AttestationOp 'at
  | DepositOp 'dp
  | VoluntaryExitOp 've

fun apply_operation ::
  "('ps, 'as, 'at, 'dp, 've) handlers \<Rightarrow> ('ps, 'as, 'at, 'dp, 've) operation handler" where
  "apply_operation fs c s (ProposerSlashingOp x) = process_proposer_slashing fs c s x"
| "apply_operation fs c s (AttesterSlashingOp x) = process_attester_slashing_op fs c s x"
| "apply_operation fs c s (AttestationOp x) = process_attestation fs c s x"
| "apply_operation fs c s (DepositOp x) = process_deposit fs c s x"
| "apply_operation fs c s (VoluntaryExitOp x) = process_voluntary_exit fs c s x"

definition operations_in_order ::
  "('ps, 'as, 'at, 'dp, 've) BeaconBlockBody \<Rightarrow> ('ps, 'as, 'at, 'dp, 've) operation list" where
  "operations_in_order body =
     map ProposerSlashingOp (proposer_slashings body)
     @ map AttesterSlashingOp (attester_slashings body)
     @ map AttestationOp (attestations body)
     @ map DepositOp (deposits body)
     @ map VoluntaryExitOp (voluntary_exits body)"

section \<open>The beam downloader\<close>

text \<open>
  The timing constants of \<open>trinity.sync.beam.constants\<close> are not among the sources; they
  are parameters here.
\<close>

record beam_constants =
  BLOCK_IMPORT_MISSING_STATE_TIMEOUT :: real
  MAX_ACCEPTABLE_WAIT_FOR_URGENT_NODE :: real

text \<open>
  The counters and queues of \<open>BeamDownloader\<close>. The two task queues are kept as the sets of
  hashes they hold; \<open>desired_knight_count\<close> is the value last given to the queen tracker's
  \<open>set_desired_knight_count\<close>.
\<close>

record BeamDownloader =
  node_tasks :: "bytes set"
  maybe_useful_nodes :: "bytes set"
  num_peers :: int
  spread_factor :: int
  min_predictive_peers :: int
  desired_knight_count :: int

text \<open>
  What one call of \<open>ensure_nodes_present\<close> observes of the world outside the coroutine:
  the store when the call starts, the clock reading \<open>start_time\<close>, then the wake-ups of the
  waiting loop, and the reading of the urgent-node timer afterwards. A turn of the loop
  reads \<open>time.monotonic()\<close> in its test (\<open>test_clock\<close>), suspends in \<open>new_data.wait()\<close>, which
  has no timeout of its own, and looks at the store when the signal wakes it
  (\<open>store_at_wake\<close>). The code never reads the clock at that moment; \<open>wake_clock\<close> records
  it, so that properties can say when a node arrived. \<open>wakes\<close> lists all the wake-ups
  that ever come: when the list ends while the loop still waits, the coroutine stays
  suspended for ever.
\<close>

record wake_up =
  test_clock :: real
  wake_clock :: real
  store_at_wake :: "bytes set"

record wait_env =
  store_at_call :: "bytes set"
  start_time :: real
  wakes :: "wake_up list"
  elapsed :: real

text \<open>\<open>clamp\<close> of \<open>eth_utils\<close>.\<close>

definition clamp :: "int \<Rightarrow> int \<Rightarrow> int \<Rightarrow> int" where
  "clamp lower_bound upper_bound v =
     (if v < lower_bound then lower_bound
      else if v > upper_bound then upper_bound
      else v)"

definition max_spread_beam_factor :: "BeamDownloader \<Rightarrow> int" where
  "max_spread_beam_factor d =
     (let max_factor = num_peers d - 1 - min_predictive_peers d in max 0 max_factor)"

definition is_node_missing :: "bytes set \<Rightarrow> bytes \<Rightarrow> py_error + bool" where
  "is_node_missing store node_hash =
     (if length node_hash \<noteq> 32 then Inl ValidationError else Inr (node_hash \<notin> store))"

text \<open>The set comprehension \<open>set(h for h in node_hashes if self._is_node_missing(h))\<close>.\<close>

fun missing_nodes_of :: "bytes set \<Rightarrow> bytes list \<Rightarrow> py_error + bytes set" where
  "missing_nodes_of store [] = Inr {}"
| "missing_nodes_of store (node_hash # rest) =
     (case is_node_missing store node_hash of
        Inl err \<Rightarrow> Inl err
      | Inr missing \<Rightarrow>
          (case missing_nodes_of store rest of
             Inl err \<Rightarrow> Inl err
           | Inr found \<Rightarrow> Inr (if missing then insert node_hash found else found)))"

text \<open>
  The loop of \<open>_node_hashes_present\<close>. It returns the hashes that remain, or \<open>None\<close> when the
  coroutine is suspended in \<open>new_data.wait()\<close> and no further wake-up comes.
\<close>

fun node_hashes_present_loop ::
  "real \<Rightarrow> real \<Rightarrow> bytes set \<Rightarrow> wake_up list \<Rightarrow> bytes set option" where
  "node_hashes_present_loop start timeout remaining_hashes [] =
     (if remaining_hashes \<noteq> {} then None else Some remaining_hashes)"
| "node_hashes_present_loop start timeout remaining_hashes (w # rest) =
     (if remaining_hashes \<noteq> {} \<and> test_clock w - start < timeout then
        let found_hashes = {found \<in> remaining_hashes. found \<in> store_at_wake w}
        in node_hashes_present_loop start timeout (remaining_hashes - found_hashes) rest
      else Some remaining_hashes)"

definition node_hashes_present :: "wait_env \<Rightarrow> bytes set \<Rightarrow> real \<Rightarrow> int option" where
  "node_hashes_present env node_hashes timeout =
     (case node_hashes_present_loop (start_time env) timeout node_hashes (wakes env) of
        None \<Rightarrow> None
      | Some remaining_hashes \<Rightarrow> Some (int (card node_hashes) - int (card remaining_hashes)))"

text \<open>\<open>_wait_for_nodes\<close> returns the count (when the wait returns) and the queue.\<close>

definition wait_for_nodes ::
  "wait_env \<Rightarrow> bytes list \<Rightarrow> bytes set \<Rightarrow> real \<Rightarrow> py_error + (int option \<times> bytes set)" where
  "wait_for_nodes env node_hashes queue timeout =
     (case missing_nodes_of (store_at_call env) node_hashes of
        Inl err \<Rightarrow> Inl err
      | Inr missing_nodes \<Rightarrow>
          let unrequested_nodes = {node_hash \<in> missing_nodes. node_hash \<notin> queue} in
          if missing_nodes \<noteq> {} then
            let queue = (if unrequested_nodes \<noteq> {} then queue \<union> unrequested_nodes else queue)
            in Inr (node_hashes_present env missing_nodes timeout, queue)
          else Inr (Some 0, queue))"

definition ensure_nodes_present ::
  "beam_constants \<Rightarrow> BeamDownloader \<Rightarrow> wait_env \<Rightarrow> bytes list \<Rightarrow> bool
     \<Rightarrow> py_error + (int option \<times> BeamDownloader)" where
  "ensure_nodes_present consts d env node_hashes urgent =
     (if urgent then
        (case wait_for_nodes env node_hashes (node_tasks d)
                (BLOCK_IMPORT_MISSING_STATE_TIMEOUT consts) of
           Inl err \<Rightarrow> Inl err
         | Inr (None, queue) \<Rightarrow> Inr (None, d\<lparr>node_tasks := queue\<rparr>)
         | Inr (Some num_nodes_found, queue) \<Rightarrow>
             let d = d\<lparr>node_tasks := queue\<rparr> in
             if length node_hashes = 1
                \<and> elapsed env > MAX_ACCEPTABLE_WAIT_FOR_URGENT_NODE consts then
               let new_spread_factor =
                     clamp 0 (max_spread_beam_factor d) (spread_factor d + 1)
               in
               if new_spread_factor \<noteq> spread_factor d then
                 Inr (Some num_nodes_found,
                      d\<lparr>desired_knight_count := new_spread_factor,
                        spread_factor := new_spread_factor\<rparr>)
               else Inr (Some num_nodes_found, d)
             else Inr (Some num_nodes_found, d))
      else
        (case wait_for_nodes env node_hashes (maybe_useful_nodes d)
                (BLOCK_IMPORT_MISSING_STATE_TIMEOUT consts) of
           Inl err \<Rightarrow> Inl err
         | Inr (num_nodes_found, queue) \<Rightarrow>
             Inr (num_nodes_found, d\<lparr>maybe_useful_nodes := queue\<rparr>)))"

definition register_peer :: "BeamDownloader \<Rightarrow> BeamDownloader" where
  "register_peer d = d\<lparr>num_peers := num_peers d + 1\<rparr>"

definition deregister_peer :: "BeamDownloader \<Rightarrow> BeamDownloader" where
  "deregister_peer d = d\<lparr>num_peers := num_peers d - 1\<rparr>"

text \<open>One turn of the loop of \<open>_reduce_spread_factor\<close>, after its sleep.\<close>

definition reduce_spread_factor :: "BeamDownloader \<Rightarrow> BeamDownloader" where
  "reduce_spread_factor d =
     (if spread_factor d > 0 then
        d\<lparr>spread_factor := spread_factor d - 1, desired_knight_count := spread_factor d - 1\<rparr>
      else d)"

text \<open>The two timeout branches of \<open>_match_predictive_node_requests_to_peers\<close>.\<close>

definition predictive_batch_timeout :: "BeamDownloader \<Rightarrow> BeamDownloader" where
  "predictive_batch_timeout d =
     (if min_predictive_peers d > 0 then d\<lparr>min_predictive_peers := min_predictive_peers d - 1\<rparr>
      else d)"

definition peasant_timeout :: "BeamDownloader \<Rightarrow> BeamDownloader" where
  "peasant_timeout d =
     (let new_predictive_peers = min (min_predictive_peers d + 1) (num_peers d div 2) in
      if new_predictive_peers \<noteq> min_predictive_peers d
        then d\<lparr>min_predictive_peers := new_predictive_peers\<rparr>
      else d)"

text \<open>The downloader as a state machine over the events that touch its counters.\<close>

datatype downloader_event =
    RegisterPeer
  | DeregisterPeer
  | EnsureNodesPresent wait_env "bytes list" bool
  | ReduceSpreadFactor
  | PredictiveBatchTimeout
  | PeasantTimeout

fun downloader_step :: "beam_constants \<Rightarrow> BeamDownloader \<Rightarrow> downloader_event \<Rightarrow> BeamDownloader" where
  "downloader_step consts d RegisterPeer = register_peer d"
| "downloader_step consts d DeregisterPeer = deregister_peer d"
| "downloader_step consts d (EnsureNodesPresent env node_hashes urgent) =
     (case ensure_nodes_present consts d env node_hashes urgent of
        Inl err \<Rightarrow> d
      | Inr (result, d') \<Rightarrow> d')"
| "downloader_step consts d ReduceSpreadFactor = reduce_spread_factor d"
| "downloader_step consts d PredictiveBatchTimeout = predictive_batch_timeout d"
| "downloader_step consts d PeasantTimeout = peasant_timeout d"

definition run_downloader ::
  "beam_constants \<Rightarrow> BeamDownloader \<Rightarrow> downloader_event list \<Rightarrow> BeamDownloader" where
  "run_downloader consts d events = foldl (downloader_step consts) d events"

text \<open>The class attributes of a fresh \<open>BeamDownloader\<close>.\<close>

definition new_downloader :: BeamDownloader where
  "new_downloader =
     \<lparr>node_tasks = {}, maybe_useful_nodes = {}, num_peers = 0, spread_factor = 0,
      min_predictive_peers = 0, desired_knight_count = 0\<rparr>"


section \<open>The shuffle, round by round\<close>

text \<open>
  The notions in which the two shuffle routes are compared. Both routes use, for the pair
  of positions at \<open>j\<close> (the larger of the two), bit \<open>j mod 8\<close> of byte \<open>(j mod 256) div 8\<close> of
  the hash of seed, round byte and the four-byte window of \<open>j div 256\<close>.
\<close>

definition position_window :: "nat \<Rightarrow> bytes" where
  "position_window j = map (\<lambda>k. of_nat (j div 256 mod 4294967296 div 256 ^ k)) [0..<4]"

definition swap_decision :: "(bytes \<Rightarrow> bytes) \<Rightarrow> bytes \<Rightarrow> nat \<Rightarrow> bool" where
  "swap_decision H pre j = bit (H (pre @ position_window j) ! (j mod 256 div 8)) (j mod 8)"

text \<open>
  The pivot of a round, the partner \<open>flip\<close> of a position, and the position a round reads
  from: its partner when the decision bit of the pair is set, itself otherwise.
\<close>

definition round_pivot :: "(bytes \<Rightarrow> bytes) \<Rightarrow> bytes \<Rightarrow> nat \<Rightarrow> nat \<Rightarrow> nat" where
  "round_pivot H seed r N = int_from_bytes (take 8 (H (seed @ [of_nat r]))) mod N"

definition round_flip :: "nat \<Rightarrow> nat \<Rightarrow> nat \<Rightarrow> nat" where
  "round_flip N pivot k = (pivot + N - k) mod N"

definition round_image :: "(nat \<Rightarrow> bool) \<Rightarrow> nat \<Rightarrow> nat \<Rightarrow> nat \<Rightarrow> nat" where
  "round_image dec N pivot k =
     (if dec (max k (round_flip N pivot k)) then round_flip N pivot k else k)"

text \<open>A list read through a map of positions, and one round as such a reading.\<close>

definition permute_by :: "(nat \<Rightarrow> nat) \<Rightarrow> 'a list \<Rightarrow> 'a list" where
  "permute_by f xs = map (\<lambda>k. xs ! f k) [0..<length xs]"

definition round_perm :: "(bytes \<Rightarrow> bytes) \<Rightarrow> bytes \<Rightarrow> nat \<Rightarrow> 'a list \<Rightarrow> 'a list" where
  "round_perm H seed r xs =
     permute_by (round_image (swap_decision H (seed @ [of_nat r])) (length xs)
                   (round_pivot H seed r (length xs))) xs"

definition round_sigma :: "(bytes \<Rightarrow> bytes) \<Rightarrow> bytes \<Rightarrow> nat \<Rightarrow> nat \<Rightarrow> nat \<Rightarrow> nat" where
  "round_sigma H seed N r k =
     round_image (swap_decision H (seed @ [of_nat r])) N (round_pivot H seed r N) k"

section \<open>Example inputs\<close>

text \<open>Concrete states and inputs at which the properties below are evaluated.\<close>

definition example_validator :: Validator where
  "example_validator =
     \<lparr>pubkey = [], withdrawal_credentials = [], effective_balance = 32000000000,
      slashed = False, activation_eligibility_epoch = 0, activation_epoch = 0,
      exit_epoch = FAR_FUTURE_EPOCH, withdrawable_epoch = FAR_FUTURE_EPOCH\<rparr>"

definition example_checkpoint :: Checkpoint where
  "example_checkpoint = \<lparr>cp_epoch = 0, cp_root = []\<rparr>"

definition example_state :: BeaconState where
  "example_state =
     \<lparr>slot = 415, block_roots = replicate 8192 [],
      eth1_data = \<lparr>deposit_root = [], deposit_count = 0, block_hash = []\<rparr>,
      eth1_deposit_index = 0,
      validators = [example_validator, example_validator],
      balances = [32000000000, 32000000000],
      slashings = replicate 8192 0,
      justification_bits = [False, False, False, False],
      previous_justified_checkpoint = example_checkpoint,
      current_justified_checkpoint = example_checkpoint,
      finalized_checkpoint = example_checkpoint\<rparr>"


definition example_ctx :: EpochsContext where
  "example_ctx =
     \<lparr>index2pubkey = [[], []], proposers = replicate 32 0,
      current_shuffling = \<lparr>epoch = 12, active_indices = [0, 1]\<rparr>\<rparr>"

definition rejecting_library :: "'a \<Rightarrow> bytes \<Rightarrow> bytes \<Rightarrow> bool call_outcome" where
  "rejecting_library pk message sig =
     (if length sig = 96 then Returns True else Raises ''malformed signature'')"

text \<open>A library call that is interrupted: the raise is not an instance of \<open>Exception\<close>.\<close>

definition interrupted_library :: "'a \<Rightarrow> bytes \<Rightarrow> bytes \<Rightarrow> bool call_outcome" where
  "interrupted_library pk message sig = RaisesBaseException ''KeyboardInterrupt''"

definition accepting_crypto :: crypto where
  "accepting_crypto =
     \<lparr>milagro_FastAggregateVerify = (\<lambda>pubkeys message sig. Returns True),
      attester_signing_root = (\<lambda>state d e. [])\<rparr>"

definition surround_data_1 :: AttestationData where
  "surround_data_1 =
     \<lparr>ad_slot = 0, ad_index = 0, beacon_block_root = [],
      source = \<lparr>cp_epoch = 0, cp_root = []\<rparr>, target = \<lparr>cp_epoch = 10, cp_root = []\<rparr>\<rparr>"

definition inverted_data_2 :: AttestationData where
  "inverted_data_2 =
     \<lparr>ad_slot = 0, ad_index = 0, beacon_block_root = [],
      source = \<lparr>cp_epoch = 5, cp_root = []\<rparr>, target = \<lparr>cp_epoch = 3, cp_root = []\<rparr>\<rparr>"

definition inverted_slashing :: AttesterSlashing where
  "inverted_slashing =
     \<lparr>attestation_1 = \<lparr>attesting_indices = [1], data = surround_data_1, signature = []\<rparr>,
      attestation_2 = \<lparr>attesting_indices = [1], data = inverted_data_2, signature = []\<rparr>\<rparr>"

definition justifying_process :: EpochProcess where
  "justifying_process =
     \<lparr>prev_epoch = 11, current_epoch = 12, total_active_stake = 64000000000,
      prev_epoch_unslashed_stake =
        \<lparr>source_stake = 64000000000, target_stake = 64000000000, head_stake = 64000000000\<rparr>,
      curr_epoch_unslashed_target_stake = 64000000000\<rparr>"

definition digit_handler :: "nat handler" where
  "digit_handler epochs_ctx state d = Inr (epochs_ctx, state\<lparr>slot := slot state * 10 + d\<rparr>)"

definition digit_handlers :: "(nat, nat, nat, nat, nat) handlers" where
  "digit_handlers =
     \<lparr>process_proposer_slashing = digit_handler,
      process_attester_slashing_op = digit_handler,
      process_attestation = digit_handler,
      process_deposit = digit_handler,
      process_voluntary_exit = digit_handler\<rparr>"

definition digit_body :: "(nat, nat, nat, nat, nat) BeaconBlockBody" where
  "digit_body =
     \<lparr>proposer_slashings = [1], attester_slashings = [2], attestations = [3, 4],
      deposits = [], voluntary_exits = [5]\<rparr>"

definition example_constants :: beam_constants where
  "example_constants =
     \<lparr>BLOCK_IMPORT_MISSING_STATE_TIMEOUT = 30, MAX_ACCEPTABLE_WAIT_FOR_URGENT_NODE = 1\<rparr>"

definition example_hash :: bytes where
  "example_hash = replicate 32 171"

text \<open>Four worlds around one call: the node comes after two seconds; a first wake-up
  brings nothing and the next loop test finds the deadline passed; the only wake-up comes
  after a hundred seconds and brings the node; no wake-up ever comes.\<close>

definition slow_env :: wait_env where
  "slow_env =
     \<lparr>store_at_call = {}, start_time = 0,
      wakes = [\<lparr>test_clock = 0, wake_clock = 1, store_at_wake = {}\<rparr>,
               \<lparr>test_clock = 1, wake_clock = 2, store_at_wake = {example_hash}\<rparr>],
      elapsed = 2\<rparr>"

definition timeout_env :: wait_env where
  "timeout_env =
     \<lparr>store_at_call = {}, start_time = 0,
      wakes = [\<lparr>test_clock = 0, wake_clock = 31, store_at_wake = {}\<rparr>,
               \<lparr>test_clock = 31, wake_clock = 40, store_at_wake = {example_hash}\<rparr>],
      elapsed = 31\<rparr>"

definition late_env :: wait_env where
  "late_env =
     \<lparr>store_at_call = {}, start_time = 0,
      wakes = [\<lparr>test_clock = 0, wake_clock = 100, store_at_wake = {example_hash}\<rparr>],
      elapsed = 100\<rparr>"

definition silent_env :: wait_env where
  "silent_env = \<lparr>store_at_call = {}, start_time = 0, wakes = [], elapsed = 0\<rparr>"

definition shrinking_pool_events :: "downloader_event list" where
  "shrinking_pool_events =
     [RegisterPeer, RegisterPeer, RegisterPeer,
      EnsureNodesPresent slow_env [example_hash] True,
      EnsureNodesPresent slow_env [example_hash] True,
      DeregisterPeer]"

text \<open>A stand-in for the hash with 32-byte digests, and a 32-byte seed.\<close>

definition example_digest :: "bytes \<Rightarrow> bytes" where
  "example_digest m = replicate 32 (sum_list m + 1)"

definition example_seed :: bytes where
  "example_seed = replicate 32 7"

section \<open>Unfolding sets for evaluation\<close>

lemmas example_defs = example_validator_def example_checkpoint_def example_state_def
  example_ctx_def

lemmas const_defs = GENESIS_EPOCH_def FAR_FUTURE_EPOCH_def MIN_PER_EPOCH_CHURN_LIMIT_def
  CHURN_LIMIT_QUOTIENT_def SLOTS_PER_EPOCH_def MAX_SEED_LOOKAHEAD_def
  SLOTS_PER_HISTORICAL_ROOT_def MIN_VALIDATOR_WITHDRAWABILITY_DELAY_def
  EPOCHS_PER_SLASHINGS_VECTOR_def WHISTLEBLOWER_REWARD_QUOTIENT_def
  PROPOSER_REWARD_QUOTIENT_def MIN_SLASHING_PENALTY_QUOTIENT_def MAX_DEPOSITS_def

lemmas slash_defs = slash_validator_def initiate_validator_exit_def exit_queue_epoch_of_def
  uint64_field_def decrease_balance_def
  increase_balance_def get_beacon_proposer_def compute_epoch_at_slot_def
  compute_activation_exit_epoch_def get_churn_limit_def

lemmas attester_defs = process_attester_slashing_def is_valid_indexed_attestation_def
  is_slashable_attestation_data_def is_slashable_validator_def py_assert_def
  bls_FastAggregateVerify_def finally_return_result_def accepting_crypto_def
  surround_data_1_def inverted_data_2_def inverted_slashing_def

lemmas justification_defs = process_justification_and_finalization_def justify_epoch_def
  get_block_root_def get_block_root_at_slot_def compute_start_slot_at_epoch_def
  justifying_process_def

lemmas downloader_defs = ensure_nodes_present_def wait_for_nodes_def node_hashes_present_def
  is_node_missing_def clamp_def max_spread_beam_factor_def register_peer_def
  deregister_peer_def reduce_spread_factor_def predictive_batch_timeout_def
  peasant_timeout_def run_downloader_def new_downloader_def example_constants_def
  example_hash_def slow_env_def timeout_env_def late_env_def silent_env_def
  shrinking_pool_events_def

section \<open>Properties of validator exit and slashing\<close>





lemma ive_Inr:
  assumes "initiate_validator_exit ctx state v = Inr s1"
  shows "v < length (validators state) \<and> length (validators s1) = length (validators state)
    \<and> effective_balance (validators s1 ! v) = effective_balance (validators state ! v)
    \<and> slashings s1 = slashings state \<and> balances s1 = balances state \<and> slot s1 = slot state"
  using assms
  by (auto simp add: initiate_validator_exit_def uint64_field_def Let_def split: if_splits)

text \<open>
  Claim C5, as amended. After \<open>slash_validator\<close> has run on validator \<open>v\<close> at current epoch
  \<open>e\<close>: \<open>v\<close> is marked slashed, its \<open>withdrawable_epoch\<close> is at least
  \<open>e + EPOCHS_PER_SLASHINGS_VECTOR\<close>, the slashings ring entry at
  \<open>e mod EPOCHS_PER_SLASHINGS_VECTOR\<close> has grown by \<open>v\<close>'s effective balance, and \<open>v\<close>'s
  balance is its old balance decreased by \<open>effective_balance div MIN_SLASHING_PENALTY_QUOTIENT\<close>
  (saturating at zero), plus the proposer reward when \<open>v\<close> is the proposer of the slot and
  plus the whistleblower's share when \<open>v\<close> is the whistleblower.
\<close>

theorem slash_validator_post:
  assumes "slash_validator ctx state v wb = Inr state'"
  shows "slashed (validators state' ! v)
       \<and> withdrawable_epoch (validators state' ! v)
            \<ge> epoch (current_shuffling ctx) + EPOCHS_PER_SLASHINGS_VECTOR
       \<and> slashings state' ! (epoch (current_shuffling ctx) mod EPOCHS_PER_SLASHINGS_VECTOR)
            = slashings state ! (epoch (current_shuffling ctx) mod EPOCHS_PER_SLASHINGS_VECTOR)
                + effective_balance (validators state ! v)
       \<and> (\<exists>p. get_beacon_proposer ctx (slot state) = Inr p
            \<and> balances state' ! v =
                (let eff = effective_balance (validators state ! v);
                     penalty = eff div MIN_SLASHING_PENALTY_QUOTIENT;
                     whistleblower_reward = eff div WHISTLEBLOWER_REWARD_QUOTIENT;
                     proposer_reward = whistleblower_reward div PROPOSER_REWARD_QUOTIENT;
                     w = (case wb of None \<Rightarrow> p | Some w \<Rightarrow> w)
                 in (if penalty > balances state ! v then 0 else balances state ! v - penalty)
                    + (if p = v then proposer_reward else 0)
                    + (if w = v then whistleblower_reward - proposer_reward else 0)))"
proof -
  define e where "e = epoch (current_shuffling ctx)"
  define k where "k = e mod EPOCHS_PER_SLASHINGS_VECTOR"
  from assms obtain s1 where s1: "initiate_validator_exit ctx state v = Inr s1"
    by (cases "initiate_validator_exit ctx state v") (simp_all add: slash_validator_def)
  note f = ive_Inr[OF s1]
  define nv where "nv = (validators s1 ! v)\<lparr>slashed := True, withdrawable_epoch :=
      max (withdrawable_epoch (validators s1 ! v)) (e + EPOCHS_PER_SLASHINGS_VECTOR)\<rparr>"
  define s2 where "s2 = s1\<lparr>slashings := (slashings s1)[k := slashings s1 ! k + effective_balance nv],
      validators := (validators s1)[v := nv]\<rparr>"
  have eff: "effective_balance nv = effective_balance (validators state ! v)"
    using f by (simp add: nv_def)
  have step1: "slash_validator ctx state v wb =
      (if k \<ge> length (slashings s1) then Inl IndexError
       else case decrease_balance s2 v (effective_balance nv div MIN_SLASHING_PENALTY_QUOTIENT) of
         Inl err \<Rightarrow> Inl err
       | Inr s3 \<Rightarrow>
         (case get_beacon_proposer ctx (slot s3) of
            Inl err \<Rightarrow> Inl err
          | Inr p \<Rightarrow>
             (case increase_balance s3 p
                 (effective_balance nv div WHISTLEBLOWER_REWARD_QUOTIENT div PROPOSER_REWARD_QUOTIENT) of
                Inl err \<Rightarrow> Inl err
              | Inr s4 \<Rightarrow> increase_balance s4 (case wb of None \<Rightarrow> p | Some w \<Rightarrow> w)
                   (effective_balance nv div WHISTLEBLOWER_REWARD_QUOTIENT
                     - effective_balance nv div WHISTLEBLOWER_REWARD_QUOTIENT div PROPOSER_REWARD_QUOTIENT))))"
    unfolding slash_validator_def Let_def s1 nv_def s2_def e_def k_def
    by (simp cong: sum.case_cong)
  from assms have klt: "k < length (slashings s1)"
    unfolding step1 by (simp split: if_splits)
  from assms klt obtain s3 where s3:
    "decrease_balance s2 v (effective_balance nv div MIN_SLASHING_PENALTY_QUOTIENT) = Inr s3"
    unfolding step1
    by (cases "decrease_balance s2 v (effective_balance nv div MIN_SLASHING_PENALTY_QUOTIENT)")
       simp_all
  from assms klt s3 obtain p where p: "get_beacon_proposer ctx (slot s3) = Inr p"
    unfolding step1 by (cases "get_beacon_proposer ctx (slot s3)") simp_all
  from assms klt s3 p obtain s4 where s4: "increase_balance s3 p
      (effective_balance nv div WHISTLEBLOWER_REWARD_QUOTIENT div PROPOSER_REWARD_QUOTIENT) = Inr s4"
    unfolding step1
    by (cases "increase_balance s3 p
      (effective_balance nv div WHISTLEBLOWER_REWARD_QUOTIENT div PROPOSER_REWARD_QUOTIENT)")
       simp_all
  from assms klt s3 p s4 have s5: "increase_balance s4 (case wb of None \<Rightarrow> p | Some w \<Rightarrow> w)
      (effective_balance nv div WHISTLEBLOWER_REWARD_QUOTIENT
        - effective_balance nv div WHISTLEBLOWER_REWARD_QUOTIENT div PROPOSER_REWARD_QUOTIENT)
      = Inr state'"
    unfolding step1 by simp
  have vlt: "v < length (balances s2)" and s3eq: "s3 = s2\<lparr>balances := (balances s2)
      [v := (if effective_balance nv div MIN_SLASHING_PENALTY_QUOTIENT > balances s2 ! v then 0
             else balances s2 ! v - effective_balance nv div MIN_SLASHING_PENALTY_QUOTIENT)]\<rparr>"
    using s3 by (auto simp add: decrease_balance_def Let_def split: if_splits)
  have plt: "p < length (balances s3)" and s4eq: "s4 = s3\<lparr>balances := (balances s3)
      [p := balances s3 ! p
         + effective_balance nv div WHISTLEBLOWER_REWARD_QUOTIENT div PROPOSER_REWARD_QUOTIENT]\<rparr>"
    using s4 by (auto simp add: increase_balance_def split: if_splits)
  define w where "w = (case wb of None \<Rightarrow> p | Some w \<Rightarrow> w)"
  have wlt: "w < length (balances s4)" and s5eq: "state' = s4\<lparr>balances := (balances s4)
      [w := balances s4 ! w + (effective_balance nv div WHISTLEBLOWER_REWARD_QUOTIENT
        - effective_balance nv div WHISTLEBLOWER_REWARD_QUOTIENT div PROPOSER_REWARD_QUOTIENT)]\<rparr>"
    using s5 by (auto simp add: increase_balance_def w_def split: if_splits)
  have vals: "validators state' = (validators s1)[v := nv]"
    by (simp add: s5eq s4eq s3eq s2_def)
  have sl: "slashings state' = (slashings s1)[k := slashings s1 ! k + effective_balance nv]"
    by (simp add: s5eq s4eq s3eq s2_def)
  have bal2: "balances s2 = balances state" using f by (simp add: s2_def)
  have slot3: "slot s3 = slot state" using f by (simp add: s3eq s2_def)
  have c1: "slashed (validators state' ! v)" using f by (simp add: vals nv_def)
  have c2: "withdrawable_epoch (validators state' ! v) \<ge> e + EPOCHS_PER_SLASHINGS_VECTOR"
    using f by (simp add: vals nv_def)
  have c3: "slashings state' ! k = slashings state ! k + effective_balance (validators state ! v)"
    using f klt by (simp add: sl eff)
  have c4: "balances state' ! v =
      (if effective_balance nv div MIN_SLASHING_PENALTY_QUOTIENT > balances state ! v then 0
       else balances state ! v - effective_balance nv div MIN_SLASHING_PENALTY_QUOTIENT)
      + (if p = v then effective_balance nv div WHISTLEBLOWER_REWARD_QUOTIENT div PROPOSER_REWARD_QUOTIENT else 0)
      + (if w = v then effective_balance nv div WHISTLEBLOWER_REWARD_QUOTIENT
        - effective_balance nv div WHISTLEBLOWER_REWARD_QUOTIENT div PROPOSER_REWARD_QUOTIENT else 0)"
    using vlt plt wlt
    by (simp add: s5eq s4eq s3eq bal2 nth_list_update)
  have p': "get_beacon_proposer ctx (slot state) = Inr p" using p slot3 by simp
  show ?thesis
    using c1 c2 c3 c4 p' unfolding e_def[symmetric] k_def[symmetric]
    by (simp add: Let_def eff w_def e_def k_def)
qed

lemma example_slash_1:
  "\<exists>state'. slash_validator example_ctx example_state 1 None = Inr state'"
  by (simp add: slash_defs example_defs const_defs Let_def)

theorem slash_validator_post_witness:
  "\<not> isl (slash_validator example_ctx example_state 1 None)
   \<and> slashed (validators (projr (slash_validator example_ctx example_state 1 None)) ! 1)
   \<and> withdrawable_epoch (validators (projr (slash_validator example_ctx example_state 1 None)) ! 1)
        \<ge> 12 + 8192
   \<and> slashings (projr (slash_validator example_ctx example_state 1 None)) ! 12 = 32000000000
   \<and> balances (projr (slash_validator example_ctx example_state 1 None)) ! 1 = 31000000000"
proof -
  obtain state' where s: "slash_validator example_ctx example_state 1 None = Inr state'"
    using example_slash_1 by blast
  have p: "get_beacon_proposer example_ctx (slot example_state) = Inr 0"
    by (simp add: get_beacon_proposer_def compute_epoch_at_slot_def example_defs const_defs)
  show ?thesis
    using slash_validator_post[OF s] s p
    by (simp add: example_defs const_defs Let_def)
qed

text \<open>
  The claim as first stated (the balance of \<open>v\<close> ends at the saturating difference) fails
  when the slashed validator is the proposer of the slot: validator 0 proposes every slot
  of the example context, is slashed, and receives the whole whistleblower reward.
\<close>

theorem slash_validator_proposer_counterexample:
  "\<not> isl (slash_validator example_ctx example_state 0 None)
   \<and> balances (projr (slash_validator example_ctx example_state 0 None)) ! 0 = 31062500000
   \<and> balances (projr (slash_validator example_ctx example_state 0 None)) ! 0 \<noteq>
        (if effective_balance (validators example_state ! 0) div MIN_SLASHING_PENALTY_QUOTIENT
              > balances example_state ! 0 then 0
         else balances example_state ! 0
              - effective_balance (validators example_state ! 0) div MIN_SLASHING_PENALTY_QUOTIENT)"
  by (simp add: slash_defs example_defs const_defs Let_def)
section \<open>Properties of the BLS wrappers\<close>

text \<open>
  Claim C7, as amended. For every input, when the library call returns a boolean,
  \<open>bls_Verify\<close> and \<open>bls_FastAggregateVerify\<close> return that boolean, and when the library
  call raises an instance of \<open>Exception\<close> they return \<open>False\<close>; in both cases nothing is
  raised.
\<close>

theorem bls_wrappers_catch_exception:
  "(lib1 PK message sig = Returns b \<longrightarrow> bls_Verify lib1 PK message sig = Inr b)
   \<and> (lib1 PK message sig = Raises exc \<longrightarrow> bls_Verify lib1 PK message sig = Inr False)
   \<and> (lib2 pubkeys message sig = Returns b
        \<longrightarrow> bls_FastAggregateVerify lib2 pubkeys message sig = Inr b)
   \<and> (lib2 pubkeys message sig = Raises exc
        \<longrightarrow> bls_FastAggregateVerify lib2 pubkeys message sig = Inr False)"
  by (simp add: bls_Verify_def bls_FastAggregateVerify_def finally_return_result_def)

theorem bls_wrappers_catch_exception_witness:
  "bls_Verify rejecting_library [] [] [1, 2, 3] = Inr False
   \<and> bls_FastAggregateVerify rejecting_library [[]] [] [1, 2, 3] = Inr False
   \<and> bls_Verify rejecting_library [] [] (replicate 96 0) = Inr True
   \<and> bls_FastAggregateVerify rejecting_library [[]] [] (replicate 96 0) = Inr True"
  using bls_wrappers_catch_exception[of rejecting_library "[]" "[]" "[1, 2, 3]" True
      "''malformed signature''" rejecting_library "[[]]"]
    bls_wrappers_catch_exception[of rejecting_library "[]" "[]" "replicate 96 0" True
      "''malformed signature''" rejecting_library "[[]]"]
  by (simp add: rejecting_library_def)

text \<open>
  The claim as first stated (whenever the library call raises, the wrappers return
  \<open>False\<close>) fails for a raise that \<open>except Exception\<close> does not catch: \<open>result\<close> is then
  unbound when the \<open>finally\<close> block returns it, and both wrappers raise
  \<open>UnboundLocalError\<close>.
\<close>

theorem bls_wrappers_base_exception_counterexample:
  "bls_Verify interrupted_library [] [] [] = Inl UnboundLocalError
   \<and> bls_FastAggregateVerify interrupted_library [[]] [] [] = Inl UnboundLocalError"
  by (simp add: bls_Verify_def bls_FastAggregateVerify_def finally_return_result_def
      interrupted_library_def)
section \<open>Properties of attester slashing\<close>

lemma py_assert_Inr:
  "py_assert c rest = Inr y \<Longrightarrow> c = Inr True \<and> rest () = Inr y"
  by (auto simp add: py_assert_def split: sum.splits if_splits)

text \<open>
  Claim C4, as amended. \<open>process_attester_slashing\<close> accepts a pair of indexed attestations
  only when they are a double vote (different data, same target epoch) or a surround vote
  in the sense of the two comparisons \<open>a1.source < a2.source\<close> and \<open>a2.target < a1.target\<close>;
  a pair satisfying neither is rejected with a failed assertion, and nobody is slashed.
  The middle comparison \<open>a2.source < a2.target\<close> of the full chain is not checked.
\<close>

theorem attester_slashing_gate:
  "(process_attester_slashing cr epochs_ctx state sl = Inr state'
      \<longrightarrow> (data (attestation_1 sl) \<noteq> data (attestation_2 sl)
             \<and> cp_epoch (target (data (attestation_1 sl)))
                 = cp_epoch (target (data (attestation_2 sl))))
          \<or> (cp_epoch (source (data (attestation_1 sl)))
                < cp_epoch (source (data (attestation_2 sl)))
              \<and> cp_epoch (target (data (attestation_2 sl)))
                < cp_epoch (target (data (attestation_1 sl)))))
   \<and> (\<not> ((data (attestation_1 sl) \<noteq> data (attestation_2 sl)
             \<and> cp_epoch (target (data (attestation_1 sl)))
                 = cp_epoch (target (data (attestation_2 sl))))
          \<or> (cp_epoch (source (data (attestation_1 sl)))
                < cp_epoch (source (data (attestation_2 sl)))
              \<and> cp_epoch (target (data (attestation_2 sl)))
                < cp_epoch (target (data (attestation_1 sl)))))
      \<longrightarrow> process_attester_slashing cr epochs_ctx state sl = Inl AssertionError)"
proof (intro conjI impI)
  assume "process_attester_slashing cr epochs_ctx state sl = Inr state'"
  then have "is_slashable_attestation_data (data (attestation_1 sl)) (data (attestation_2 sl))"
    unfolding process_attester_slashing_def Let_def
    by (auto dest!: py_assert_Inr)
  then show "(data (attestation_1 sl) \<noteq> data (attestation_2 sl)
             \<and> cp_epoch (target (data (attestation_1 sl)))
                 = cp_epoch (target (data (attestation_2 sl))))
          \<or> (cp_epoch (source (data (attestation_1 sl)))
                < cp_epoch (source (data (attestation_2 sl)))
              \<and> cp_epoch (target (data (attestation_2 sl)))
                < cp_epoch (target (data (attestation_1 sl))))"
    by (simp add: is_slashable_attestation_data_def)
next
  assume "\<not> ((data (attestation_1 sl) \<noteq> data (attestation_2 sl)
             \<and> cp_epoch (target (data (attestation_1 sl)))
                 = cp_epoch (target (data (attestation_2 sl))))
          \<or> (cp_epoch (source (data (attestation_1 sl)))
                < cp_epoch (source (data (attestation_2 sl)))
              \<and> cp_epoch (target (data (attestation_2 sl)))
                < cp_epoch (target (data (attestation_1 sl)))))"
  then have "\<not> is_slashable_attestation_data (data (attestation_1 sl)) (data (attestation_2 sl))"
    by (simp add: is_slashable_attestation_data_def)
  then show "process_attester_slashing cr epochs_ctx state sl = Inl AssertionError"
    by (simp add: process_attester_slashing_def Let_def py_assert_def)
qed

lemma inverted_slashing_accepted:
  "\<not> isl (process_attester_slashing accepting_crypto example_ctx example_state inverted_slashing)"
  by (simp add: attester_defs slash_defs example_defs const_defs Let_def)

theorem attester_slashing_gate_witness:
  "\<not> isl (process_attester_slashing accepting_crypto example_ctx example_state inverted_slashing)
   \<and> cp_epoch (source surround_data_1) < cp_epoch (source inverted_data_2)
   \<and> cp_epoch (target inverted_data_2) < cp_epoch (target surround_data_1)
   \<and> process_attester_slashing accepting_crypto example_ctx example_state
        \<lparr>attestation_1 = \<lparr>attesting_indices = [1], data = surround_data_1, signature = []\<rparr>,
         attestation_2 = \<lparr>attesting_indices = [1], data = surround_data_1, signature = []\<rparr>\<rparr>
       = Inl AssertionError"
proof -
  obtain state' where s: "process_attester_slashing accepting_crypto example_ctx example_state
      inverted_slashing = Inr state'"
    using inverted_slashing_accepted
    by (cases "process_attester_slashing accepting_crypto example_ctx example_state
      inverted_slashing") simp_all
  show ?thesis
    using attester_slashing_gate[of accepting_crypto example_ctx example_state
        inverted_slashing state']
      attester_slashing_gate[of accepting_crypto example_ctx example_state
        "\<lparr>attestation_1 = \<lparr>attesting_indices = [1], data = surround_data_1, signature = []\<rparr>,
         attestation_2 = \<lparr>attesting_indices = [1], data = surround_data_1, signature = []\<rparr>\<rparr>"]
      s
    by (simp add: surround_data_1_def inverted_data_2_def inverted_slashing_def)
qed

text \<open>
  The claim as first stated (acceptance only for a double vote or the full chain
  \<open>a1.source < a2.source < a2.target < a1.target\<close>) fails: the second attestation of the
  example has source epoch 5 and target epoch 3, the first surrounds it with source 0 and
  target 10, and the slashing is accepted.
\<close>

theorem attester_slashing_full_chain_counterexample:
  "\<not> isl (process_attester_slashing accepting_crypto example_ctx example_state inverted_slashing)
   \<and> \<not> (data (attestation_1 inverted_slashing) \<noteq> data (attestation_2 inverted_slashing)
         \<and> cp_epoch (target (data (attestation_1 inverted_slashing)))
             = cp_epoch (target (data (attestation_2 inverted_slashing))))
   \<and> \<not> (cp_epoch (source (data (attestation_1 inverted_slashing)))
           < cp_epoch (source (data (attestation_2 inverted_slashing)))
         \<and> cp_epoch (source (data (attestation_2 inverted_slashing)))
           < cp_epoch (target (data (attestation_2 inverted_slashing)))
         \<and> cp_epoch (target (data (attestation_2 inverted_slashing)))
           < cp_epoch (target (data (attestation_1 inverted_slashing))))"
  using inverted_slashing_accepted
  by (simp add: surround_data_1_def inverted_data_2_def inverted_slashing_def)
section \<open>Properties of justification\<close>

lemma justify_epoch_Inr:
  assumes "justify_epoch enough e k (s, bits) = Inr (s', bits')"
  shows "(enough \<longrightarrow> (\<exists>r. get_block_root s e = Inr r
              \<and> s' = s\<lparr>current_justified_checkpoint := \<lparr>cp_epoch = e, cp_root = r\<rparr>\<rparr>)
            \<and> k < length bits \<and> bits' = bits[k := True])
       \<and> (\<not> enough \<longrightarrow> s' = s \<and> bits' = bits)"
  using assms
  by (auto simp add: justify_epoch_def Let_def split: sum.splits if_splits)

lemma get_block_root_cong:
  "slot s' = slot s \<Longrightarrow> block_roots s' = block_roots s
     \<Longrightarrow> get_block_root s' e = get_block_root s e"
  by (simp add: get_block_root_def get_block_root_at_slot_def)

lemma pjf_Inr:
  assumes gt: "current_epoch process > GENESIS_EPOCH + 1"
    and res: "process_justification_and_finalization epochs_ctx process state = Inr state'"
  obtains s1 bits1 s2 bits2 where
    "justify_epoch (target_stake (prev_epoch_unslashed_stake process) * 3
         \<ge> total_active_stake process * 2) (prev_epoch process) 1
       (state\<lparr>previous_justified_checkpoint := current_justified_checkpoint state\<rparr>,
        (take 1 (justification_bits state) @ butlast (justification_bits state))[0 := False])
      = Inr (s1, bits1)"
    "justify_epoch (curr_epoch_unslashed_target_stake process * 3
         \<ge> total_active_stake process * 2) (current_epoch process) 0 (s1, bits1)
      = Inr (s2, bits2)"
    "justification_bits state' = bits2"
    "current_justified_checkpoint state' = current_justified_checkpoint s2"
proof -
  let ?s0 = "state\<lparr>previous_justified_checkpoint := current_justified_checkpoint state\<rparr>"
  let ?b0 = "(take 1 (justification_bits state) @ butlast (justification_bits state))[0 := False]"
  let ?j1 = "justify_epoch (target_stake (prev_epoch_unslashed_stake process) * 3
         \<ge> total_active_stake process * 2) (prev_epoch process) 1 (?s0, ?b0)"
  from gt res obtain sb1 where j1: "?j1 = Inr sb1"
    unfolding process_justification_and_finalization_def Let_def
    by (cases ?j1) (simp_all split: if_splits)
  obtain s1 bits1 where sb1: "sb1 = (s1, bits1)" by (cases sb1)
  let ?j2 = "justify_epoch (curr_epoch_unslashed_target_stake process * 3
         \<ge> total_active_stake process * 2) (current_epoch process) 0 (s1, bits1)"
  from gt res j1 sb1 obtain sb2 where j2: "?j2 = Inr sb2"
    unfolding process_justification_and_finalization_def Let_def
    by (cases ?j2) (simp_all split: if_splits)
  obtain s2 bits2 where sb2: "sb2 = (s2, bits2)" by (cases sb2)
  from gt res j1 sb1 j2 sb2 have
    "justification_bits state' = bits2
     \<and> current_justified_checkpoint state' = current_justified_checkpoint s2"
    unfolding process_justification_and_finalization_def Let_def
    by (auto split: if_splits)
  with j1 sb1 j2 sb2 that show thesis by blast
qed

text \<open>
  Claim C3, as amended. In \<open>process_justification_and_finalization\<close>: when the current
  epoch is at most \<open>GENESIS_EPOCH + 1\<close> the state is returned unchanged. When it is greater,
  the previous-epoch unslashed target stake times 3 is at least the total active stake
  times 2, and the function returns, then bit 1 of the justification bits is set, and the
  current justified checkpoint is (previous epoch, block root at its start slot) unless
  the current-epoch target stake reaches the same threshold, in which case it is
  (current epoch, block root at its start slot).
\<close>

theorem justification_spec:
  "(current_epoch process \<le> GENESIS_EPOCH + 1
      \<longrightarrow> process_justification_and_finalization epochs_ctx process state = Inr state)
   \<and> (current_epoch process > GENESIS_EPOCH + 1
       \<and> target_stake (prev_epoch_unslashed_stake process) * 3 \<ge> total_active_stake process * 2
       \<and> process_justification_and_finalization epochs_ctx process state = Inr state'
      \<longrightarrow> justification_bits state' ! 1
          \<and> (if curr_epoch_unslashed_target_stake process * 3 \<ge> total_active_stake process * 2
             then \<exists>r. get_block_root state (current_epoch process) = Inr r
                    \<and> current_justified_checkpoint state'
                        = \<lparr>cp_epoch = current_epoch process, cp_root = r\<rparr>
             else \<exists>r. get_block_root state (prev_epoch process) = Inr r
                    \<and> current_justified_checkpoint state'
                        = \<lparr>cp_epoch = prev_epoch process, cp_root = r\<rparr>))"
proof (rule conjI; rule impI)
  assume "current_epoch process \<le> GENESIS_EPOCH + 1"
  then show "process_justification_and_finalization epochs_ctx process state = Inr state"
    by (simp add: process_justification_and_finalization_def)
next
  assume a: "current_epoch process > GENESIS_EPOCH + 1
       \<and> target_stake (prev_epoch_unslashed_stake process) * 3 \<ge> total_active_stake process * 2
       \<and> process_justification_and_finalization epochs_ctx process state = Inr state'"
  let ?s0 = "state\<lparr>previous_justified_checkpoint := current_justified_checkpoint state\<rparr>"
  from a obtain s1 bits1 s2 bits2 where
    j1: "justify_epoch (target_stake (prev_epoch_unslashed_stake process) * 3
         \<ge> total_active_stake process * 2) (prev_epoch process) 1
       (?s0, (take 1 (justification_bits state) @ butlast (justification_bits state))[0 := False])
      = Inr (s1, bits1)"
    and j2: "justify_epoch (curr_epoch_unslashed_target_stake process * 3
         \<ge> total_active_stake process * 2) (current_epoch process) 0 (s1, bits1)
      = Inr (s2, bits2)"
    and b: "justification_bits state' = bits2"
    and c: "current_justified_checkpoint state' = current_justified_checkpoint s2"
    using pjf_Inr[of process epochs_ctx state state'] by blast
  from a justify_epoch_Inr[OF j1] obtain r1 where
    r1: "get_block_root ?s0 (prev_epoch process) = Inr r1"
    and s1: "s1 = ?s0\<lparr>current_justified_checkpoint :=
        \<lparr>cp_epoch = prev_epoch process, cp_root = r1\<rparr>\<rparr>"
    and l1: "1 < length bits1" and b1: "bits1 ! 1"
    by auto
  have r1': "get_block_root state (prev_epoch process) = Inr r1"
    using r1 get_block_root_cong[of ?s0 state] by simp
  show "justification_bits state' ! 1
          \<and> (if curr_epoch_unslashed_target_stake process * 3 \<ge> total_active_stake process * 2
             then \<exists>r. get_block_root state (current_epoch process) = Inr r
                    \<and> current_justified_checkpoint state'
                        = \<lparr>cp_epoch = current_epoch process, cp_root = r\<rparr>
             else \<exists>r. get_block_root state (prev_epoch process) = Inr r
                    \<and> current_justified_checkpoint state'
                        = \<lparr>cp_epoch = prev_epoch process, cp_root = r\<rparr>)"
  proof (cases "curr_epoch_unslashed_target_stake process * 3 \<ge> total_active_stake process * 2")
    case True
    with justify_epoch_Inr[OF j2] obtain r2 where
      r2: "get_block_root s1 (current_epoch process) = Inr r2"
      and s2: "s2 = s1\<lparr>current_justified_checkpoint :=
          \<lparr>cp_epoch = current_epoch process, cp_root = r2\<rparr>\<rparr>"
      and b2: "bits2 = bits1[0 := True]"
      by auto
    have "get_block_root state (current_epoch process) = Inr r2"
      using r2 get_block_root_cong[of s1 state] by (simp add: s1)
    then show ?thesis using True b c s2 b2 b1 l1 by simp
  next
    case False
    with justify_epoch_Inr[OF j2] have "s2 = s1" "bits2 = bits1" by auto
    then show ?thesis using False b c s1 b1 r1' by simp
  qed
qed

theorem justification_spec_witness:
  "process_justification_and_finalization example_ctx
       (justifying_process\<lparr>current_epoch := 1\<rparr>) example_state = Inr example_state
   \<and> justification_bits
        (projr (process_justification_and_finalization example_ctx justifying_process example_state))
        ! 1
   \<and> current_justified_checkpoint
        (projr (process_justification_and_finalization example_ctx
           (justifying_process\<lparr>curr_epoch_unslashed_target_stake := 1000000000\<rparr>) example_state))
      = \<lparr>cp_epoch = 11, cp_root = []\<rparr>"
proof -
  let ?p2 = "justifying_process\<lparr>curr_epoch_unslashed_target_stake := 1000000000\<rparr>"
  obtain s1 where s1: "process_justification_and_finalization example_ctx justifying_process
      example_state = Inr s1"
    by (simp add: justification_defs example_defs const_defs Let_def)
  obtain s2 where s2: "process_justification_and_finalization example_ctx ?p2
      example_state = Inr s2"
    by (simp add: justification_defs example_defs const_defs Let_def)
  have g: "get_block_root example_state 11 = Inr []"
    by (simp add: justification_defs example_defs const_defs)
  show ?thesis
    using justification_spec[of "justifying_process\<lparr>current_epoch := 1\<rparr>" example_ctx
        example_state s1]
      justification_spec[of justifying_process example_ctx example_state s1]
      justification_spec[of ?p2 example_ctx example_state s2]
      s1 s2 g
    by (simp add: justifying_process_def const_defs)
qed

text \<open>
  The claim as first stated (the checkpoint becomes that of the previous epoch whenever the
  previous-epoch threshold is met) fails when the current epoch is justified as well.
\<close>

theorem justification_current_epoch_counterexample:
  "current_epoch justifying_process > GENESIS_EPOCH + 1
   \<and> target_stake (prev_epoch_unslashed_stake justifying_process) * 3
        \<ge> total_active_stake justifying_process * 2
   \<and> \<not> isl (process_justification_and_finalization example_ctx justifying_process example_state)
   \<and> current_justified_checkpoint
        (projr (process_justification_and_finalization example_ctx justifying_process example_state))
      = \<lparr>cp_epoch = 12, cp_root = []\<rparr>
   \<and> current_justified_checkpoint
        (projr (process_justification_and_finalization example_ctx justifying_process example_state))
      \<noteq> \<lparr>cp_epoch = prev_epoch justifying_process,
          cp_root = projr (get_block_root example_state (prev_epoch justifying_process))\<rparr>"
  by (simp add: justification_defs example_defs const_defs Let_def)
section \<open>Properties of block operations\<close>

lemma apply_operations_append:
  "apply_operations f (xs @ ys) cs =
     (case apply_operations f xs cs of Inl err \<Rightarrow> Inl err | Inr cs' \<Rightarrow> apply_operations f ys cs')"
proof (induction xs arbitrary: cs)
  case Nil
  then show ?case by simp
next
  case (Cons x xs)
  obtain c s where cs: "cs = (c, s)" by (cases cs)
  show ?case using Cons by (simp add: cs split: sum.splits)
qed

lemma apply_operations_map:
  assumes "\<And>c s x. g c s (tag x) = f c s x"
  shows "apply_operations g (map tag xs) cs = apply_operations f xs cs"
proof (induction xs arbitrary: cs)
  case Nil
  then show ?case by simp
next
  case (Cons x xs)
  obtain c s where cs: "cs = (c, s)" by (cases cs)
  show ?case using Cons assms by (simp add: cs split: sum.splits)
qed

text \<open>
  Claim C6. \<open>process_operations\<close> fails its assertion, whatever the handlers would do, unless
  the number of deposits in the body equals
  \<open>min(MAX_DEPOSITS, eth1_data.deposit_count - eth1_deposit_index)\<close>; when it proceeds, its
  result is that of applying the operations one after the other in the order
  proposer slashings, attester slashings, attestations, deposits, voluntary exits,
  stopping at the first that raises.
\<close>

theorem process_operations_order:
  "(int (length (deposits body))
       \<noteq> min (int MAX_DEPOSITS)
             (int (deposit_count (eth1_data state)) - int (eth1_deposit_index state))
      \<longrightarrow> process_operations fs epochs_ctx state body = Inl AssertionError)
   \<and> (int (length (deposits body))
       = min (int MAX_DEPOSITS)
             (int (deposit_count (eth1_data state)) - int (eth1_deposit_index state))
      \<longrightarrow> process_operations fs epochs_ctx state body
          = apply_operations (apply_operation fs) (operations_in_order body) (epochs_ctx, state))"
proof (rule conjI; rule impI)
  assume "int (length (deposits body))
       \<noteq> min (int MAX_DEPOSITS)
             (int (deposit_count (eth1_data state)) - int (eth1_deposit_index state))"
  then show "process_operations fs epochs_ctx state body = Inl AssertionError"
    by (simp add: process_operations_def)
next
  assume eq: "int (length (deposits body))
       = min (int MAX_DEPOSITS)
             (int (deposit_count (eth1_data state)) - int (eth1_deposit_index state))"
  have m1: "\<And>xs cs. apply_operations (apply_operation fs) (map ProposerSlashingOp xs) cs
      = apply_operations (process_proposer_slashing fs) xs cs"
    by (rule apply_operations_map) simp
  have m2: "\<And>xs cs. apply_operations (apply_operation fs) (map AttesterSlashingOp xs) cs
      = apply_operations (process_attester_slashing_op fs) xs cs"
    by (rule apply_operations_map) simp
  have m3: "\<And>xs cs. apply_operations (apply_operation fs) (map AttestationOp xs) cs
      = apply_operations (process_attestation fs) xs cs"
    by (rule apply_operations_map) simp
  have m4: "\<And>xs cs. apply_operations (apply_operation fs) (map DepositOp xs) cs
      = apply_operations (process_deposit fs) xs cs"
    by (rule apply_operations_map) simp
  have m5: "\<And>xs cs. apply_operations (apply_operation fs) (map VoluntaryExitOp xs) cs
      = apply_operations (process_voluntary_exit fs) xs cs"
    by (rule apply_operations_map) simp
  show "process_operations fs epochs_ctx state body
          = apply_operations (apply_operation fs) (operations_in_order body) (epochs_ctx, state)"
    unfolding process_operations_def operations_in_order_def apply_operations_append m1 m2 m3 m4 m5
    using eq by (simp split: sum.splits)
qed

theorem process_operations_order_witness:
  "process_operations digit_handlers example_ctx (example_state\<lparr>slot := 0\<rparr>) digit_body
     = Inr (example_ctx, example_state\<lparr>slot := 12345\<rparr>)
   \<and> process_operations digit_handlers example_ctx (example_state\<lparr>slot := 0\<rparr>)
        (digit_body\<lparr>deposits := [9]\<rparr>)
     = Inl AssertionError"
  using process_operations_order[of digit_body "example_state\<lparr>slot := 0\<rparr>" digit_handlers example_ctx]
    process_operations_order[of "digit_body\<lparr>deposits := [9]\<rparr>" "example_state\<lparr>slot := 0\<rparr>"
      digit_handlers example_ctx]
  by (simp add: digit_body_def digit_handlers_def digit_handler_def operations_in_order_def
      example_state_def MAX_DEPOSITS_def)
section \<open>Properties of the beam downloader\<close>

lemma ensure_spread:
  assumes "ensure_nodes_present consts d env hs urgent = Inr (r, d')"
  shows "num_peers d' = num_peers d \<and> min_predictive_peers d' = min_predictive_peers d
       \<and> (spread_factor d' = spread_factor d
          \<or> spread_factor d' = clamp 0 (max_spread_beam_factor d) (spread_factor d + 1))"
  using assms
  by (auto simp add: ensure_nodes_present_def Let_def max_spread_beam_factor_def
      split: if_splits sum.splits option.splits prod.splits)

lemma clamp_bounds: "lo \<le> hi \<Longrightarrow> lo \<le> clamp lo hi v \<and> clamp lo hi v \<le> hi"
  by (simp add: clamp_def)

lemma max_spread_nonneg: "0 \<le> max_spread_beam_factor d"
  by (simp add: max_spread_beam_factor_def)

lemma step_spread_nonneg:
  assumes nn: "0 \<le> spread_factor d"
  shows "0 \<le> spread_factor (downloader_step cs d ev)"
proof (cases ev)
  case (EnsureNodesPresent env hs urgent)
  show ?thesis
  proof (cases "ensure_nodes_present cs d env hs urgent")
    case (Inl e)
    then show ?thesis using nn EnsureNodesPresent by simp
  next
    case (Inr p)
    obtain r d' where p: "p = (r, d')" by (cases p)
    from ensure_spread[OF Inr[unfolded p]] nn
      clamp_bounds[OF max_spread_nonneg[of d], of "spread_factor d + 1"]
    have "0 \<le> spread_factor d'" by auto
    then show ?thesis using Inr p EnsureNodesPresent by simp
  qed
qed (use nn in \<open>simp_all add: register_peer_def deregister_peer_def reduce_spread_factor_def
      predictive_batch_timeout_def peasant_timeout_def Let_def\<close>)

lemma run_spread_nonneg:
  "0 \<le> spread_factor d \<Longrightarrow> 0 \<le> spread_factor (foldl (downloader_step cs) d events)"
  by (induction events arbitrary: d) (simp_all add: step_spread_nonneg)

text \<open>
  Claim C9, as amended. The spread factor never becomes negative: it stays at least 0
  along every run of the downloader's events. Every change of the spread factor in
  \<open>ensure_nodes_present\<close> sets it to \<open>clamp(0, max_spread, spread_factor + 1)\<close>, a value
  within \<open>[0, max(0, num_peers - 1 - min_predictive_peers)]\<close> at that moment, and the
  periodic reducer decrements by one only when the factor is strictly positive. (The
  upper bound is not restored when \<open>num_peers\<close> drops or \<open>min_predictive_peers\<close> rises.)
\<close>

theorem spread_factor_rules:
  "(0 \<le> spread_factor d \<longrightarrow> 0 \<le> spread_factor (run_downloader consts d events))
   \<and> (ensure_nodes_present consts d env node_hashes urgent = Inr (r, d')
       \<and> spread_factor d' \<noteq> spread_factor d
      \<longrightarrow> spread_factor d' = clamp 0 (max_spread_beam_factor d) (spread_factor d + 1)
          \<and> 0 \<le> spread_factor d'
          \<and> spread_factor d' \<le> max 0 (num_peers d' - 1 - min_predictive_peers d'))
   \<and> spread_factor (reduce_spread_factor d)
       = (if spread_factor d > 0 then spread_factor d - 1 else spread_factor d)"
proof (intro conjI impI)
  assume "0 \<le> spread_factor d"
  then show "0 \<le> spread_factor (run_downloader consts d events)"
    unfolding run_downloader_def by (rule run_spread_nonneg)
next
  assume a: "ensure_nodes_present consts d env node_hashes urgent = Inr (r, d')
       \<and> spread_factor d' \<noteq> spread_factor d"
  then have e: "num_peers d' = num_peers d" "min_predictive_peers d' = min_predictive_peers d"
    "spread_factor d' = clamp 0 (max_spread_beam_factor d) (spread_factor d + 1)"
    using ensure_spread[of "consts" d env node_hashes urgent r d'] by auto
  show "spread_factor d' = clamp 0 (max_spread_beam_factor d) (spread_factor d + 1)"
    by (rule e(3))
  show "0 \<le> spread_factor d'"
    using e(3) clamp_bounds[OF max_spread_nonneg[of d]] by simp
  show "spread_factor d' \<le> max 0 (num_peers d' - 1 - min_predictive_peers d')"
    using e clamp_bounds[OF max_spread_nonneg[of d], of "spread_factor d + 1"]
    by (simp add: max_spread_beam_factor_def)
next
  show "spread_factor (reduce_spread_factor d)
       = (if spread_factor d > 0 then spread_factor d - 1 else spread_factor d)"
    by (simp add: reduce_spread_factor_def)
qed

theorem spread_factor_rules_witness:
  "0 \<le> spread_factor (run_downloader example_constants new_downloader shrinking_pool_events)
   \<and> spread_factor (snd (projr (ensure_nodes_present example_constants
        (register_peer (register_peer new_downloader)) slow_env [example_hash] True))) = 1
   \<and> spread_factor (reduce_spread_factor new_downloader) = 0"
proof -
  let ?d = "register_peer (register_peer new_downloader)"
  obtain r d' where e: "ensure_nodes_present example_constants ?d slow_env [example_hash] True
      = Inr (r, d')" and ne: "spread_factor d' \<noteq> spread_factor ?d"
    by (simp add: downloader_defs Let_def)
  show ?thesis
    using spread_factor_rules[of new_downloader example_constants shrinking_pool_events
        slow_env "[example_hash]" True r d']
      spread_factor_rules[of ?d example_constants "[]" slow_env "[example_hash]" True r d']
      e ne
    by (simp add: new_downloader_def register_peer_def clamp_def max_spread_beam_factor_def)
qed

text \<open>
  The claim as first stated (the factor is always within the bound) fails: with three
  peers two slow urgent nodes raise the factor to 2, and when one peer leaves the bound is
  1 while the factor is still 2.
\<close>

theorem spread_factor_bound_counterexample:
  "\<not> (spread_factor (run_downloader example_constants new_downloader shrinking_pool_events)
        \<le> max 0 (num_peers (run_downloader example_constants new_downloader shrinking_pool_events)
                  - 1
                  - min_predictive_peers
                      (run_downloader example_constants new_downloader shrinking_pool_events)))"
  by (simp add: downloader_defs Let_def)












section \<open>Properties of the shuffle\<close>

subsection \<open>Arithmetic of positions\<close>

lemma pred_div_eq:
  fixes j n :: nat
  assumes n: "0 < n" and "j mod n \<noteq> 0"
  shows "(j - 1) div n = j div n"
proof -
  define q where "q = j div n"
  define r where "r = j mod n"
  have r: "0 < r" "r < n" using assms n by (simp_all add: r_def)
  have j: "j = r + q * n" by (simp add: q_def r_def)
  have "j - 1 = (r - 1) + q * n" using j r by simp
  then have "(j - 1) div n = (r - 1) div n + q" using n by simp
  moreover have "(r - 1) div n = 0" using r by simp
  ultimately show ?thesis by (simp add: q_def)
qed

lemma pred_mod_eq:
  fixes j n :: nat
  assumes "0 < n" "0 < j" "j mod n = 0"
  shows "(j - 1) mod n = n - 1"
proof -
  define q where "q = j div n"
  have j: "j = q * n" using assms by (auto simp add: q_def)
  have "q \<noteq> 0" using j assms by auto
  then obtain q' where q': "q = Suc q'" by (cases q) auto
  have "j = n + q' * n" using j q' by simp
  then have "j - 1 = (n - 1) + q' * n" using assms by simp
  then have "(j - 1) mod n = (n - 1) mod n" by simp
  then show ?thesis using assms by simp
qed

lemma mod_256_div_8: "(j::nat) mod 256 div 8 = j div 8 mod 32"
proof -
  have "j mod (8 * 32) = 8 * (j div 8 mod 32) + j mod 8" by (rule mod_mult2_eq)
  then have "j mod 256 div 8 = (8 * (j div 8 mod 32) + j mod 8) div 8" by simp
  also have "\<dots> = j div 8 mod 32" by simp
  finally show ?thesis .
qed

lemma mod_8_of_256: "(j::nat) mod 256 = 0 \<Longrightarrow> j mod 8 = 0"
proof -
  assume a: "j mod 256 = 0"
  have "(8::nat) dvd 256" by simp
  then have "j mod 256 mod 8 = j mod 8" by (rule mod_mod_cancel)
  with a show ?thesis by simp
qed

lemma byte_index_lt: "(j::nat) mod 256 div 8 < 32"
  by (simp add: less_mult_imp_div_less)

lemma and_255: "(j::nat) AND 255 = j mod 256"
  using take_bit_eq_mask[of 8 j] take_bit_eq_mod[of 8 j] by (simp add: mask_eq_exp_minus_1)

lemma and_7: "(j::nat) AND 7 = j mod 8"
  using take_bit_eq_mask[of 3 j] take_bit_eq_mod[of 3 j] by (simp add: mask_eq_exp_minus_1)

lemma and_ffffffff: "(j::nat) AND 4294967295 = j mod 4294967296"
  using take_bit_eq_mask[of 32 j] take_bit_eq_mod[of 32 j] by (simp add: mask_eq_exp_minus_1)

lemma bit_decision:
  "(drop_bit k (w::byte) AND 1 = 1) \<longleftrightarrow> bit w k"
  by (simp add: and_one_eq bit_iff_odd_drop_bit mod_2_eq_odd)

lemma bit_decision':
  "(unat (drop_bit k (w::byte)) mod 2 \<noteq> 0) \<longleftrightarrow> bit w k"
  by (simp add: unat_drop_bit_eq bit_iff_odd_drop_bit[symmetric] bit_unsigned_iff mod_2_eq_odd)

subsection \<open>The inner loop\<close>

lemma position_eq: "drop_bit 8 (j::nat) AND 0xFFFFFFFF = j div 256 mod 4294967296"
  by (simp only: and_ffffffff drop_bit_eq_div) simp

lemma to_bytes_position:
  "to_bytes (drop_bit 8 j AND 0xFFFFFFFF) 4 = Inr (position_window j)"
proof -
  have "j div 256 mod 4294967296 < (4294967296::nat)" by simp
  then have "\<not> (256::nat) ^ 4 \<le> j div 256 mod 4294967296" by simp
  then show ?thesis
    unfolding to_bytes_def position_eq position_window_def by (simp only: if_False)
qed

lemma rehash_position_eq:
  "rehash_position H buf j
     = Inr (take 33 buf @ position_window j, H (take 33 buf @ position_window j))"
  unfolding rehash_position_def to_bytes_position SHUFFLE_H_PIVOT_VIEW_SIZE_def
    SHUFFLE_H_SEED_SIZE_def SHUFFLE_H_ROUND_SIZE_def
  by (simp add: Let_def)

declare swap_or_not_loop.simps [simp del]

lemma byte_at_position:
  "length src = 32 \<Longrightarrow> byte_at src (drop_bit 3 (j AND 255)) = Inr (src ! (j mod 256 div 8))"
proof -
  assume l: "length src = 32"
  have eq: "drop_bit 3 (j AND 255) = j mod 256 div 8"
    by (simp only: and_255 drop_bit_eq_div) simp
  show ?thesis unfolding eq byte_at_def using byte_index_lt[of j] l by simp
qed

lemma position_window_pred:
  "j mod 256 \<noteq> 0 \<Longrightarrow> position_window (j - 1) = position_window j"
proof -
  assume "j mod 256 \<noteq> 0"
  then have "(j - 1) div 256 = j div 256" using pred_div_eq[of 256 j] by simp
  then show ?thesis unfolding position_window_def by (simp only:)
qed

lemma swap_loop_step:
  assumes H32: "\<forall>m. length (H m) = 32"
    and pre: "take 33 buf = pre"
    and srcI: "j mod 256 \<noteq> 255 \<longrightarrow> src = H (pre @ position_window j)"
    and byteI: "j mod 8 \<noteq> 7 \<longrightarrow> byteV = H (pre @ position_window j) ! (j mod 256 div 8)"
    and lt: "i < mirror" and ij: "i < j" and jl: "j < length input"
  shows "swap_or_not_loop H mirror buf src byteV i j input
     = swap_or_not_loop H mirror
         (if j mod 256 = 255 then pre @ position_window j else buf)
         (H (pre @ position_window j))
         (H (pre @ position_window j) ! (j mod 256 div 8))
         (i + 1) (j - 1)
         (if swap_decision H pre j then input[i := input ! j, j := input ! i] else input)"
proof -
  let ?src1 = "H (pre @ position_window j)"
  let ?b1 = "?src1 ! (j mod 256 div 8)"
  have a: "(if j AND 0xFF = 0xFF then rehash_position H buf j else Inr (buf, src))
      = Inr (if j mod 256 = 255 then pre @ position_window j else buf, ?src1)"
  proof (cases "j mod 256 = 255")
    case True
    then show ?thesis by (simp only: and_255 rehash_position_eq pre) simp
  next
    case False
    then show ?thesis using srcI by (simp only: and_255 if_False) simp
  qed
  have l1: "length ?src1 = 32" using H32 by simp
  have b: "(if j AND 0x7 = 0x7 then byte_at ?src1 (drop_bit 3 (j AND 0xFF)) else Inr byteV)
      = Inr ?b1"
  proof (cases "j mod 8 = 7")
    case True
    then show ?thesis by (simp only: and_7 byte_at_position[OF l1]) simp
  next
    case False
    then show ?thesis using byteI by (simp only: and_7 if_False) simp
  qed
  have c: "(drop_bit (j AND 0x7) ?b1 AND 0x1 = 1) = swap_decision H pre j"
    by (simp only: and_7 bit_decision swap_decision_def)
  have d: "swap_items input i j = Inr (input[i := input ! j, j := input ! i])"
    using ij jl by (simp add: swap_items_def)
  show ?thesis
    apply (subst swap_or_not_loop.simps)
    apply (simp only: lt if_True a sum.case prod.case b Let_def c)
    apply (cases "swap_decision H pre j")
     apply (simp_all only: if_True if_False d sum.case)
    done
qed

lemma swap_loop_char:
  assumes H32: "\<forall>m. length (H m) = 32" and lp: "length pre = 33"
  shows "take 33 buf = pre
    \<Longrightarrow> (j mod 256 \<noteq> 255 \<longrightarrow> src = H (pre @ position_window j))
    \<Longrightarrow> (j mod 8 \<noteq> 7 \<longrightarrow> byteV = H (pre @ position_window j) ! (j mod 256 div 8))
    \<Longrightarrow> i + j = s \<Longrightarrow> 2 * mirror \<le> s + 1 \<Longrightarrow> j < length input
    \<Longrightarrow> \<exists>buf' ys. swap_or_not_loop H mirror buf src byteV i j input = Inr (buf', ys)
          \<and> take 33 buf' = pre \<and> length ys = length input
          \<and> (\<forall>k < length input. ys ! k =
                (if i \<le> k \<and> k < mirror \<and> swap_decision H pre (s - k) then input ! (s - k)
                 else if s - mirror < k \<and> k \<le> j \<and> swap_decision H pre k then input ! (s - k)
                 else input ! k))"
proof (induction "mirror - i" arbitrary: i j buf src byteV input)
  case 0
  then have ge: "mirror \<le> i" by simp
  then have "swap_or_not_loop H mirror buf src byteV i j input = Inr (buf, input)"
    by (subst swap_or_not_loop.simps) simp
  moreover have "\<forall>k < length input. input ! k =
                (if i \<le> k \<and> k < mirror \<and> swap_decision H pre (s - k) then input ! (s - k)
                 else if s - mirror < k \<and> k \<le> j \<and> swap_decision H pre k then input ! (s - k)
                 else input ! k)"
    using ge 0 by auto
  ultimately show ?case using 0 by simp
next
  case (Suc n)
  then have lt: "i < mirror" by simp
  with Suc.prems have ij: "i < j" by linarith
  let ?dec = "swap_decision H pre"
  let ?buf1 = "if j mod 256 = 255 then pre @ position_window j else buf"
  let ?src1 = "H (pre @ position_window j)"
  let ?b1 = "?src1 ! (j mod 256 div 8)"
  let ?in1 = "if ?dec j then input[i := input ! j, j := input ! i] else input"
  have step: "swap_or_not_loop H mirror buf src byteV i j input
      = swap_or_not_loop H mirror ?buf1 ?src1 ?b1 (i + 1) (j - 1) ?in1"
    by (rule swap_loop_step[OF H32 Suc.prems(1) Suc.prems(2) Suc.prems(3) lt ij Suc.prems(6)])
  have p1: "take 33 ?buf1 = pre" using Suc.prems(1) lp by simp
  have p2: "(j - 1) mod 256 \<noteq> 255 \<longrightarrow> ?src1 = H (pre @ position_window (j - 1))"
  proof
    assume "(j - 1) mod 256 \<noteq> 255"
    with ij have "j mod 256 \<noteq> 0" using pred_mod_eq[of 256 j] by auto
    then show "?src1 = H (pre @ position_window (j - 1))"
      using position_window_pred[of j] by simp
  qed
  have p3: "(j - 1) mod 8 \<noteq> 7
      \<longrightarrow> ?b1 = H (pre @ position_window (j - 1)) ! ((j - 1) mod 256 div 8)"
  proof
    assume a: "(j - 1) mod 8 \<noteq> 7"
    with ij have j8: "j mod 8 \<noteq> 0" using pred_mod_eq[of 8 j] by auto
    then have "j mod 256 \<noteq> 0" using mod_8_of_256[of j] by auto
    moreover from j8 have "(j - 1) div 8 = j div 8" using pred_div_eq[of 8 j] by simp
    then have "(j - 1) mod 256 div 8 = j mod 256 div 8"
      by (simp only: mod_256_div_8)
    ultimately show "?b1 = H (pre @ position_window (j - 1)) ! ((j - 1) mod 256 div 8)"
      using position_window_pred[of j] by simp
  qed
  have p4: "(i + 1) + (j - 1) = s" using ij Suc.prems(4) by simp
  have p6: "j - 1 < length ?in1" using Suc.prems(6) by simp
  have n: "n = mirror - (i + 1)" using Suc.hyps(2) by simp
  from Suc.hyps(1)[OF n p1 p2 p3 p4 Suc.prems(5) p6]
  obtain buf' ys where r: "swap_or_not_loop H mirror ?buf1 ?src1 ?b1 (i + 1) (j - 1) ?in1
        = Inr (buf', ys)"
    and t: "take 33 buf' = pre" and l: "length ys = length ?in1"
    and v: "\<forall>k < length ?in1. ys ! k =
                (if i + 1 \<le> k \<and> k < mirror \<and> ?dec (s - k) then ?in1 ! (s - k)
                 else if s - mirror < k \<and> k \<le> j - 1 \<and> ?dec k then ?in1 ! (s - k)
                 else ?in1 ! k)"
    by blast
  have len1: "length ?in1 = length input" by simp
  have sj: "s - j = i" "s - i = j" using Suc.prems(4) by auto
  have im: "i + mirror \<le> s" using lt Suc.prems(5) by linarith
  have jm: "mirror \<le> j" using im Suc.prems(4) by linarith
  have "\<forall>k < length input. ys ! k =
                (if i \<le> k \<and> k < mirror \<and> ?dec (s - k) then input ! (s - k)
                 else if s - mirror < k \<and> k \<le> j \<and> ?dec k then input ! (s - k)
                 else input ! k)"
  proof (intro allI impI)
    fix k assume kl: "k < length input"
    then have vk: "ys ! k =
                (if i + 1 \<le> k \<and> k < mirror \<and> ?dec (s - k) then ?in1 ! (s - k)
                 else if s - mirror < k \<and> k \<le> j - 1 \<and> ?dec k then ?in1 ! (s - k)
                 else ?in1 ! k)"
      using v len1 by simp
    consider "k = i" | "k = j" | "k \<noteq> i" "k \<noteq> j" by blast
    then show "ys ! k =
                (if i \<le> k \<and> k < mirror \<and> ?dec (s - k) then input ! (s - k)
                 else if s - mirror < k \<and> k \<le> j \<and> ?dec k then input ! (s - k)
                 else input ! k)"
    proof cases
      case 1
      have "\<not> (s - mirror < i)" using im by linarith
      then show ?thesis
        using vk 1 lt ij sj Suc.prems(6) by (simp add: nth_list_update)
    next
      case 2
      have "\<not> (j < mirror)" using jm by simp
      moreover have "s - mirror < j" using lt Suc.prems(4) ij by linarith
      moreover have "\<not> (j \<le> j - 1)" using ij by linarith
      ultimately show ?thesis
        using vk 2 ij sj Suc.prems(6) by (simp add: nth_list_update)
    next
      case 3
      have a: "?in1 ! k = input ! k" using 3 by simp
      have b: "k \<le> s \<Longrightarrow> ?in1 ! (s - k) = input ! (s - k)"
      proof -
        assume "k \<le> s"
        then have "s - k \<noteq> i" "s - k \<noteq> j" using 3 Suc.prems(4) by linarith+
        then show ?thesis by simp
      qed
      have c: "(i + 1 \<le> k) = (i \<le> k)" "(k \<le> j - 1) = (k \<le> j)" using 3 ij by linarith+
      have d: "k < mirror \<Longrightarrow> k \<le> s" using im by linarith
      have e: "k \<le> j \<Longrightarrow> k \<le> s" using Suc.prems(4) by linarith
      show ?thesis
        unfolding vk c a using b d e by auto
    qed
  qed
  with r t l len1 step show ?case by simp
qed

subsection \<open>One round\<close>

lemma round_flip_low: "k \<le> pivot \<Longrightarrow> pivot < N \<Longrightarrow> round_flip N pivot k = pivot - k"
proof -
  assume a: "k \<le> pivot" "pivot < N"
  then have "pivot + N - k = (pivot - k) + 1 * N" by simp
  then have "(pivot + N - k) mod N = (pivot - k) mod N" by (simp only: mod_mult_self1)
  then show ?thesis using a by (simp add: round_flip_def)
qed

lemma round_flip_high: "pivot < k \<Longrightarrow> k < N \<Longrightarrow> round_flip N pivot k = pivot + N - k"
  by (simp add: round_flip_def)

lemma mirror_formula:
  fixes s m i0 j0 k :: nat
  assumes m1: "2 * m \<le> s + 1" and m2: "s + 1 < 2 * m + 2"
    and s: "i0 + j0 = s" and k1: "i0 \<le> k" and k2: "k \<le> j0"
  shows "(if i0 \<le> k \<and> k < m \<and> dec (s - k) then f (s - k)
          else if s - m < k \<and> k \<le> j0 \<and> dec k then f (s - k)
          else f k)
         = f (if dec (max k (s - k)) then s - k else k)"
proof -
  consider "k < m" | "m \<le> k" "s - m < k" | "m \<le> k" "k \<le> s - m" by linarith
  then show ?thesis
  proof cases
    case 1
    then have a: "max k (s - k) = s - k" using m1 by (simp add: max_def)
    have b: "\<not> (s - m < k)" using 1 m1 by linarith
    show ?thesis using 1 a b k1 by simp
  next
    case 2
    then have a: "max k (s - k) = k" using m1 by (simp add: max_def)
    have b: "\<not> (k < m)" using 2 by simp
    show ?thesis using 2 a b k2 by simp
  next
    case 3
    then have "s - k = k" using m1 m2 s k1 k2 by linarith
    then show ?thesis using 3 by simp
  qed
qed

lemma take_33_set:
  assumes "take 32 buf = seed" "33 \<le> length buf" "length seed = 32"
  shows "take 33 (buf[32 := b]) = seed @ [b]"
proof -
  have "take 33 (buf[32 := b]) = (take 33 buf)[32 := b]" by (simp add: take_update_swap)
  also have "take 33 buf = take 32 buf @ [buf ! 32]"
    using assms(2) take_Suc_conv_app_nth[of 32 buf] by simp
  also have "(take 32 buf @ [buf ! 32])[32 := b] = take 32 buf @ [b]"
    using assms by (simp add: list_update_append)
  finally show ?thesis using assms by simp
qed

lemma half_bounds: "2 * (drop_bit 1 (n::nat)) \<le> n \<and> n < 2 * drop_bit 1 n + 2"
proof -
  have "drop_bit 1 n = n div 2" by (simp add: drop_bit_eq_div)
  moreover have "2 * (n div 2) \<le> n" by simp
  moreover have "n < 2 * (n div 2) + 2"
  proof -
    have "n = 2 * (n div 2) + n mod 2" by simp
    moreover have "n mod 2 < 2" by simp
    ultimately show ?thesis by linarith
  qed
  ultimately show ?thesis by simp
qed

lemma shuffle_round_char:
  assumes H32: "\<forall>m. length (H m) = 32" and ls: "length seed = 32"
    and tb: "take 32 buf = seed" and lb: "33 \<le> length buf"
    and r: "r < 256" and N: "length input = N" and N1: "1 \<le> N"
  shows "\<exists>buf'. shuffle_round H N buf r input
           = Inr (buf', permute_by (round_image (swap_decision H (seed @ [of_nat r])) N
                                      (round_pivot H seed r N)) input)
         \<and> take 32 buf' = seed \<and> 33 \<le> length buf'"
proof -
  define pre :: bytes where "pre = seed @ [of_nat r]"
  define pivot where "pivot = round_pivot H seed r N"
  define dec where "dec = swap_decision H pre"
  define m1 where "m1 = drop_bit 1 (pivot + 1)"
  define m2 where "m2 = drop_bit 1 (pivot + N + 1)"
  define b1 where "b1 = buf[32 := of_nat r]"
  have lp: "length pre = 33" using ls by (simp add: pre_def)
  have pN: "pivot < N" using N1 by (simp add: pivot_def round_pivot_def)
  have sb: "set_byte buf SHUFFLE_H_SEED_SIZE r = Inr b1"
    using lb r by (simp add: set_byte_def SHUFFLE_H_SEED_SIZE_def b1_def)
  have t1: "take 33 b1 = pre" unfolding b1_def pre_def by (rule take_33_set[OF tb lb ls])
  have piv: "int_from_bytes (take 8 (H (take 33 b1))) mod N = pivot"
    by (simp add: t1 pre_def pivot_def round_pivot_def)
  have l32: "\<And>x. length (H x) = 32" using H32 by simp
  have hb1: "2 * m1 \<le> pivot + 1" "pivot + 1 < 2 * m1 + 2"
    using half_bounds[of "pivot + 1"] by (simp_all add: m1_def)
  have "\<exists>buf' ys. swap_or_not_loop H m1 (pre @ position_window pivot)
            (H (pre @ position_window pivot))
            (H (pre @ position_window pivot) ! (pivot mod 256 div 8)) 0 pivot input
          = Inr (buf', ys)
          \<and> take 33 buf' = pre \<and> length ys = length input
          \<and> (\<forall>k < length input. ys ! k =
                (if 0 \<le> k \<and> k < m1 \<and> swap_decision H pre (pivot - k) then input ! (pivot - k)
                 else if pivot - m1 < k \<and> k \<le> pivot \<and> swap_decision H pre k
                   then input ! (pivot - k)
                 else input ! k))"
    by (rule swap_loop_char[OF H32 lp]) (use lp hb1 pN N in simp_all)
  then obtain b3 ys1 where loop1: "swap_or_not_loop H m1 (pre @ position_window pivot)
            (H (pre @ position_window pivot))
            (H (pre @ position_window pivot) ! (pivot mod 256 div 8)) 0 pivot input
          = Inr (b3, ys1)"
    and t3: "take 33 b3 = pre" and l1: "length ys1 = N"
    and v1: "\<forall>k < N. ys1 ! k =
                (if 0 \<le> k \<and> k < m1 \<and> dec (pivot - k) then input ! (pivot - k)
                 else if pivot - m1 < k \<and> k \<le> pivot \<and> dec k then input ! (pivot - k)
                 else input ! k)"
    unfolding dec_def N by blast
  have hb2: "2 * m2 \<le> pivot + N + 1" "pivot + N + 1 < 2 * m2 + 2"
    using half_bounds[of "pivot + N + 1"] by (simp_all add: m2_def)
  have "\<exists>buf' ys. swap_or_not_loop H m2 (pre @ position_window (N - 1))
            (H (pre @ position_window (N - 1)))
            (H (pre @ position_window (N - 1)) ! ((N - 1) mod 256 div 8)) (pivot + 1) (N - 1) ys1
          = Inr (buf', ys)
          \<and> take 33 buf' = pre \<and> length ys = length ys1
          \<and> (\<forall>k < length ys1. ys ! k =
                (if pivot + 1 \<le> k \<and> k < m2 \<and> swap_decision H pre (pivot + N - k)
                   then ys1 ! (pivot + N - k)
                 else if pivot + N - m2 < k \<and> k \<le> N - 1 \<and> swap_decision H pre k
                   then ys1 ! (pivot + N - k)
                 else ys1 ! k))"
    by (rule swap_loop_char[OF H32 lp]) (use lp hb2 pN N1 l1 in simp_all)
  then obtain b5 ys2 where loop2: "swap_or_not_loop H m2 (pre @ position_window (N - 1))
            (H (pre @ position_window (N - 1)))
            (H (pre @ position_window (N - 1)) ! ((N - 1) mod 256 div 8)) (pivot + 1) (N - 1) ys1
          = Inr (b5, ys2)"
    and t5: "take 33 b5 = pre" and l2: "length ys2 = N"
    and v2: "\<forall>k < N. ys2 ! k =
                (if pivot + 1 \<le> k \<and> k < m2 \<and> dec (pivot + N - k) then ys1 ! (pivot + N - k)
                 else if pivot + N - m2 < k \<and> k \<le> N - 1 \<and> dec k then ys1 ! (pivot + N - k)
                 else ys1 ! k)"
    unfolding dec_def l1 by blast
  have sb32: "set_byte buf 32 r = Inr b1"
    using sb by (simp only: SHUFFLE_H_SEED_SIZE_def)
  have n33: "(32::nat) + 1 = 33" by simp
  have piv': "int_from_bytes (take 8 (H pre)) mod N = pivot"
    using piv by (simp only: t1)
  have res: "shuffle_round H N buf r input = Inr (b5, ys2)"
    unfolding shuffle_round_def SHUFFLE_H_PIVOT_VIEW_SIZE_def
      SHUFFLE_H_SEED_SIZE_def SHUFFLE_H_ROUND_SIZE_def
    by (simp only: sb32 n33 Let_def t1 piv' rehash_position_eq t3 sum.case prod.case
        byte_at_position[OF l32] loop1[unfolded m1_def] loop2[unfolded m2_def])
  have pw: "\<forall>k < N. ys2 ! k = input ! round_image dec N pivot k"
  proof (intro allI impI)
    fix k assume kN: "k < N"
    show "ys2 ! k = input ! round_image dec N pivot k"
    proof (cases "k \<le> pivot")
      case True
      have fl: "round_flip N pivot k = pivot - k" using True pN by (rule round_flip_low)
      have "pivot + N - m2 \<ge> pivot" using hb2 pN by linarith
      then have "ys2 ! k = ys1 ! k" using v2 kN True by simp
      also have "\<dots> = (if 0 \<le> k \<and> k < m1 \<and> dec (pivot - k) then input ! (pivot - k)
                 else if pivot - m1 < k \<and> k \<le> pivot \<and> dec k then input ! (pivot - k)
                 else input ! k)"
        using v1 kN by simp
      also have "\<dots> = input ! (if dec (max k (pivot - k)) then pivot - k else k)"
        using mirror_formula[of m1 pivot 0 pivot k dec "\<lambda>x. input ! x"] hb1 True by simp
      finally show ?thesis by (simp add: round_image_def fl)
    next
      case False
      then have gt: "pivot < k" by simp
      have fl: "round_flip N pivot k = pivot + N - k" using gt kN by (rule round_flip_high)
      have in1: "\<And>x. pivot < x \<Longrightarrow> x < N \<Longrightarrow> ys1 ! x = input ! x"
      proof -
        fix x assume x: "pivot < x" "x < N"
        have "\<not> x < m1" using hb1 x by linarith
        then show "ys1 ! x = input ! x" using v1 x by simp
      qed
      have fk: "pivot < pivot + N - k" "pivot + N - k < N" using gt kN by linarith+
      have "ys2 ! k = (if pivot + 1 \<le> k \<and> k < m2 \<and> dec (pivot + N - k) then ys1 ! (pivot + N - k)
                 else if pivot + N - m2 < k \<and> k \<le> N - 1 \<and> dec k then ys1 ! (pivot + N - k)
                 else ys1 ! k)"
        using v2 kN by simp
      also have "\<dots> = ys1 ! (if dec (max k (pivot + N - k)) then pivot + N - k else k)"
        using mirror_formula[of m2 "pivot + N" "pivot + 1" "N - 1" k dec "\<lambda>x. ys1 ! x"]
          hb2 gt kN by simp
      also have "\<dots> = input ! (if dec (max k (pivot + N - k)) then pivot + N - k else k)"
        using in1[OF fk] in1[OF gt kN] by simp
      finally show ?thesis by (simp add: round_image_def fl)
    qed
  qed
  have "ys2 = permute_by (round_image dec N pivot) input"
    unfolding permute_by_def N
    by (rule nth_equalityI) (use l2 pw in simp_all)
  moreover have "take 32 b5 = seed"
  proof -
    have "take 32 b5 = take 32 (take 33 b5)" by simp
    then show ?thesis unfolding t5 pre_def using ls by simp
  qed
  moreover have "33 \<le> length b5"
  proof -
    have "length (take 33 b5) = 33" unfolding t5 by (rule lp)
    then show ?thesis by simp
  qed
  ultimately show ?thesis
    unfolding res dec_def pre_def pivot_def by blast
qed

subsection \<open>All rounds\<close>

lemma round_flip_lt: "0 < N \<Longrightarrow> round_flip N pivot k < N"
  by (simp add: round_flip_def)

lemma round_flip_flip:
  assumes "pivot < N" "k < N"
  shows "round_flip N pivot (round_flip N pivot k) = k"
proof (cases "k \<le> pivot")
  case True
  then have a: "round_flip N pivot k = pivot - k" using assms by (simp add: round_flip_low)
  have "round_flip N pivot (pivot - k) = pivot - (pivot - k)"
    using assms by (intro round_flip_low) simp_all
  then show ?thesis using a True by simp
next
  case False
  then have gt: "pivot < k" by simp
  then have a: "round_flip N pivot k = pivot + N - k" using assms by (simp add: round_flip_high)
  have "round_flip N pivot (pivot + N - k) = pivot + N - (pivot + N - k)"
    using assms gt by (intro round_flip_high) simp_all
  then show ?thesis using a gt assms by simp
qed

lemma round_image_lt:
  "pivot < N \<Longrightarrow> k < N \<Longrightarrow> round_image dec N pivot k < N"
  by (simp add: round_image_def round_flip_lt)

lemma round_image_invol:
  assumes "pivot < N" "k < N"
  shows "round_image dec N pivot (round_image dec N pivot k) = k"
proof (cases "dec (max k (round_flip N pivot k))")
  case True
  then have a: "round_image dec N pivot k = round_flip N pivot k" by (simp add: round_image_def)
  have b: "round_flip N pivot (round_flip N pivot k) = k" using assms by (rule round_flip_flip)
  have "max (round_flip N pivot k) k = max k (round_flip N pivot k)" by (rule max.commute)
  then show ?thesis unfolding a using True b by (simp add: round_image_def)
next
  case False
  then have a: "round_image dec N pivot k = k" by (simp add: round_image_def)
  show ?thesis unfolding a using False by (simp add: round_image_def)
qed

lemma length_permute_by [simp]: "length (permute_by f xs) = length xs"
  by (simp add: permute_by_def)

lemma nth_permute_by: "k < length xs \<Longrightarrow> permute_by f xs ! k = xs ! f k"
  by (simp add: permute_by_def)

lemma length_round_perm [simp]: "length (round_perm H seed r xs) = length xs"
  by (simp add: round_perm_def)

lemma round_pivot_lt: "0 < N \<Longrightarrow> round_pivot H seed r N < N"
  by (simp add: round_pivot_def)

lemma round_perm_invol: "round_perm H seed r (round_perm H seed r xs) = xs"
proof (rule nth_equalityI)
  show "length (round_perm H seed r (round_perm H seed r xs)) = length xs" by simp
next
  fix k assume "k < length (round_perm H seed r (round_perm H seed r xs))"
  then have k: "k < length xs" by simp
  then have N: "0 < length xs" by auto
  let ?f = "round_image (swap_decision H (seed @ [of_nat r])) (length xs)
                   (round_pivot H seed r (length xs))"
  have p: "round_pivot H seed r (length xs) < length xs" using N by (rule round_pivot_lt)
  have fk: "?f k < length xs" using p k by (rule round_image_lt)
  have "round_perm H seed r (round_perm H seed r xs) ! k = round_perm H seed r xs ! ?f k"
    using k by (simp add: round_perm_def nth_permute_by)
  also have "\<dots> = xs ! ?f (?f k)" using fk by (simp add: round_perm_def nth_permute_by)
  also have "?f (?f k) = k" using p k by (rule round_image_invol)
  finally show "round_perm H seed r (round_perm H seed r xs) ! k = xs ! k" .
qed

lemma fold_rev_cancel:
  assumes "\<And>r xs. ap r (ap r xs) = xs"
  shows "fold ap (rev rs) (fold ap rs xs) = xs"
proof (induction rs arbitrary: xs)
  case Nil
  show ?case by simp
next
  case (Cons r rs)
  have "fold ap (rev (r # rs)) (fold ap (r # rs) xs)
      = ap r (fold ap (rev rs) (fold ap rs (ap r xs)))" by simp
  also have "\<dots> = ap r (ap r xs)" by (simp only: Cons.IH)
  also have "\<dots> = xs" by (rule assms)
  finally show ?case .
qed

lemma shuffle_round_perm:
  assumes H32: "\<forall>m. length (H m) = 32" and ls: "length seed = 32"
    and tb: "take 32 buf = seed" and lb: "33 \<le> length buf"
    and r: "r < 256" and N1: "1 \<le> length input"
  shows "\<exists>buf'. shuffle_round H (length input) buf r input = Inr (buf', round_perm H seed r input)
         \<and> take 32 buf' = seed \<and> 33 \<le> length buf'"
  unfolding round_perm_def
  by (rule shuffle_round_char[OF H32 ls tb lb r refl N1])

lemma shuffle_rounds_forward:
  assumes H32: "\<forall>m. length (H m) = 32" and ls: "length seed = 32"
  shows "r < 90 \<Longrightarrow> take 32 buf = seed \<Longrightarrow> 33 \<le> length buf \<Longrightarrow> 1 \<le> length xs
    \<Longrightarrow> shuffle_rounds H True (length xs) buf r xs
        = Some (Inr (fold (round_perm H seed) [r..<90] xs))"
proof (induction "90 - r" arbitrary: r buf xs)
  case 0
  then show ?case by simp
next
  case (Suc n)
  have r256: "r < 256" using Suc.prems(1) by simp
  from shuffle_round_perm[OF H32 ls Suc.prems(2) Suc.prems(3) r256 Suc.prems(4)]
  obtain buf' where rd: "shuffle_round H (length xs) buf r xs
      = Inr (buf', round_perm H seed r xs)"
    and tb': "take 32 buf' = seed" and lb': "33 \<le> length buf'" by blast
  have up: "[r..<90] = r # [Suc r..<90]" using Suc.prems(1) by (simp add: upt_conv_Cons)
  show ?case
  proof (cases "r + 1 = 90")
    case True
    then have r89: "r = 89" by simp
    show ?thesis
      apply (subst shuffle_rounds.simps)
      apply (simp only: rd sum.case prod.case)
      apply (simp add: r89 SHUFFLE_ROUND_COUNT_def Let_def)
      done
  next
    case False
    then have lt: "Suc r < 90" using Suc.prems(1) by simp
    have n: "n = 90 - Suc r" using Suc.hyps(2) by simp
    have l: "1 \<le> length (round_perm H seed r xs)" using Suc.prems(4) by simp
    have ih: "shuffle_rounds H True (length xs) buf' (Suc r) (round_perm H seed r xs)
        = Some (Inr (fold (round_perm H seed) [Suc r..<90] (round_perm H seed r xs)))"
      using Suc.hyps(1)[OF n lt tb' lb' l] by simp
    have ne: "r \<noteq> 89" using False by simp
    show ?thesis
      apply (subst shuffle_rounds.simps)
      apply (simp only: rd sum.case prod.case up)
      apply (simp add: ne SHUFFLE_ROUND_COUNT_def Let_def ih)
      done
  qed
qed

lemma shuffle_rounds_backward:
  assumes H32: "\<forall>m. length (H m) = 32" and ls: "length seed = 32"
  shows "r < 90 \<Longrightarrow> take 32 buf = seed \<Longrightarrow> 33 \<le> length buf \<Longrightarrow> 1 \<le> length xs
    \<Longrightarrow> shuffle_rounds H False (length xs) buf r xs
        = Some (Inr (fold (round_perm H seed) (rev [0..<Suc r]) xs))"
proof (induction r arbitrary: buf xs)
  case 0
  have r256: "(0::nat) < 256" by simp
  from shuffle_round_perm[OF H32 ls 0(2) 0(3) r256 0(4)]
  obtain buf' where rd: "shuffle_round H (length xs) buf 0 xs
      = Inr (buf', round_perm H seed 0 xs)" by blast
  show ?case
    apply (subst shuffle_rounds.simps)
    apply (simp only: rd sum.case prod.case)
    apply simp
    done
next
  case (Suc r)
  have r256: "Suc r < 256" using Suc.prems(1) by simp
  from shuffle_round_perm[OF H32 ls Suc.prems(2) Suc.prems(3) r256 Suc.prems(4)]
  obtain buf' where rd: "shuffle_round H (length xs) buf (Suc r) xs
      = Inr (buf', round_perm H seed (Suc r) xs)"
    and tb': "take 32 buf' = seed" and lb': "33 \<le> length buf'" by blast
  have lt: "r < 90" using Suc.prems(1) by simp
  have l: "1 \<le> length (round_perm H seed (Suc r) xs)" using Suc.prems(4) by simp
  have ih: "shuffle_rounds H False (length xs) buf' r (round_perm H seed (Suc r) xs)
      = Some (Inr (fold (round_perm H seed) (rev [0..<Suc r]) (round_perm H seed (Suc r) xs)))"
    using Suc.IH[OF lt tb' lb' l] by simp
  show ?case
    apply (subst shuffle_rounds.simps)
    apply (simp only: rd sum.case prod.case)
    apply (simp add: ih)
    done
qed

lemma initial_buffer:
  assumes "length seed = 32"
  shows "take 32 (seed @ drop SHUFFLE_H_SEED_SIZE (replicate SHUFFLE_H_TOTAL_SIZE 0)) = seed
       \<and> 33 \<le> length (seed @ drop SHUFFLE_H_SEED_SIZE (replicate SHUFFLE_H_TOTAL_SIZE (0::byte)))"
  using assms
  by (simp add: SHUFFLE_H_SEED_SIZE_def SHUFFLE_H_TOTAL_SIZE_def SHUFFLE_H_ROUND_SIZE_def
      SHUFFLE_H_POSITION_WINDOW_SIZE_def)

lemma shuffle_list_eq:
  assumes H32: "\<forall>m. length (H m) = 32" and ls: "length seed = 32"
  shows "shuffle_list H xs seed
     = Some (Inr (if length xs \<le> 1 then xs else fold (round_perm H seed) [0..<90] xs))"
proof (cases "length xs \<le> 1")
  case True
  then show ?thesis by (simp add: shuffle_list_def inner_shuffle_list_def)
next
  case False
  then have l: "1 \<le> length xs" by simp
  have z: "(0::nat) < 90" by simp
  note ib = initial_buffer[OF ls]
  show ?thesis
    using False shuffle_rounds_forward[OF H32 ls z conjunct1[OF ib] conjunct2[OF ib] l]
    by (simp add: shuffle_list_def inner_shuffle_list_def Let_def)
qed

lemma unshuffle_list_eq:
  assumes H32: "\<forall>m. length (H m) = 32" and ls: "length seed = 32"
  shows "unshuffle_list H xs seed
     = Some (Inr (if length xs \<le> 1 then xs else fold (round_perm H seed) (rev [0..<90]) xs))"
proof (cases "length xs \<le> 1")
  case True
  then show ?thesis by (simp add: unshuffle_list_def inner_shuffle_list_def)
next
  case False
  then have l: "1 \<le> length xs" by simp
  have z: "(89::nat) < 90" by simp
  note ib = initial_buffer[OF ls]
  have s: "Suc 89 = 90" by simp
  show ?thesis
    using False shuffle_rounds_backward[OF H32 ls z conjunct1[OF ib] conjunct2[OF ib] l]
    by (simp add: unshuffle_list_def inner_shuffle_list_def Let_def SHUFFLE_ROUND_COUNT_def s)
qed

lemma length_fold_round_perm [simp]:
  "length (fold (round_perm H seed) rs xs) = length xs"
  by (induction rs arbitrary: xs) simp_all

text \<open>
  Claim C1. For every list and every 32-byte seed (the hash yielding 32-byte digests, as
  SHA-256 does), \<open>shuffle_list\<close> and \<open>unshuffle_list\<close> both return, and each undoes the
  other: shuffling and then unshuffling with the same seed gives the list back, and so
  does unshuffling and then shuffling, over all \<open>SHUFFLE_ROUND_COUNT = 90\<close> rounds.
\<close>

theorem shuffle_unshuffle_inverse:
  assumes "\<forall>m. length (H m) = 32" and "length seed = 32"
  shows "(\<exists>ys. shuffle_list H xs seed = Some (Inr ys)
              \<and> unshuffle_list H ys seed = Some (Inr xs))
       \<and> (\<exists>zs. unshuffle_list H xs seed = Some (Inr zs)
              \<and> shuffle_list H zs seed = Some (Inr xs))"
proof -
  have c1: "fold (round_perm H seed) (rev [0..<90]) (fold (round_perm H seed) [0..<90] xs) = xs"
    by (rule fold_rev_cancel) (rule round_perm_invol)
  have "fold (round_perm H seed) (rev (rev [0..<90]))
          (fold (round_perm H seed) (rev [0..<90]) xs) = xs"
    by (rule fold_rev_cancel) (rule round_perm_invol)
  then have c2: "fold (round_perm H seed) [0..<90] (fold (round_perm H seed) (rev [0..<90]) xs)
      = xs" by (simp only: rev_rev_ident)
  show ?thesis
    unfolding shuffle_list_eq[OF assms] unshuffle_list_eq[OF assms]
    using c1 c2 by (cases "length xs \<le> 1") simp_all
qed

theorem shuffle_unshuffle_inverse_witness:
  "unshuffle_list example_digest
      (projr (the (shuffle_list example_digest [3, 1, 4, 1, 5 :: nat] example_seed))) example_seed
     = Some (Inr [3, 1, 4, 1, 5])
   \<and> shuffle_list example_digest
      (projr (the (unshuffle_list example_digest [3, 1, 4, 1, 5 :: nat] example_seed))) example_seed
     = Some (Inr [3, 1, 4, 1, 5])"
  using shuffle_unshuffle_inverse[of example_digest example_seed "[3, 1, 4, 1, 5 :: nat]"]
  by (auto simp add: example_digest_def example_seed_def)

subsection \<open>The single-index route\<close>

lemma round_perm_nth:
  "k < length xs \<Longrightarrow> round_perm H seed r xs ! k = xs ! round_sigma H seed (length xs) r k"
  by (simp add: round_perm_def round_sigma_def nth_permute_by)

lemma round_sigma_lt: "k < N \<Longrightarrow> round_sigma H seed N r k < N"
proof -
  assume k: "k < N"
  then have "0 < N" by auto
  then have "round_pivot H seed r N < N" by (rule round_pivot_lt)
  then show ?thesis unfolding round_sigma_def using k by (rule round_image_lt)
qed

lemma fold_round_sigma_lt: "k < N \<Longrightarrow> fold (round_sigma H seed N) rs k < N"
  by (induction rs arbitrary: k) (simp_all add: round_sigma_lt)

lemma fold_round_perm_nth:
  "k < length xs
     \<Longrightarrow> fold (round_perm H seed) rs xs ! k
         = xs ! fold (round_sigma H seed (length xs)) (rev rs) k"
proof (induction rs arbitrary: xs)
  case Nil
  then show ?case by simp
next
  case (Cons r rs)
  let ?m = "fold (round_sigma H seed (length xs)) (rev rs) k"
  have m: "?m < length xs" using Cons.prems by (rule fold_round_sigma_lt)
  have "fold (round_perm H seed) (r # rs) xs ! k
      = fold (round_perm H seed) rs (round_perm H seed r xs) ! k" by simp
  also have "\<dots> = round_perm H seed r xs ! ?m"
    using Cons.IH[of "round_perm H seed r xs"] Cons.prems by simp
  also have "\<dots> = xs ! round_sigma H seed (length xs) r ?m"
    using m by (rule round_perm_nth)
  finally show ?case by simp
qed

lemma int_to_bytes_round: "r < 256 \<Longrightarrow> int_to_bytes r 1 = Inr [of_nat r]"
  by (simp add: int_to_bytes_def to_bytes_def)

lemma int_to_bytes_position:
  assumes "p < 2 ^ 40"
  shows "int_to_bytes (p div 256) 4 = Inr (position_window p)"
proof -
  have "p < 256 * 4294967296" using assms by simp
  then have lt: "p div 256 < 4294967296" by (simp add: less_mult_imp_div_less mult.commute)
  then have "\<not> (256::nat) ^ 4 \<le> p div 256" by simp
  moreover have "p div 256 mod 4294967296 = p div 256" using lt by simp
  ultimately show ?thesis
    unfolding int_to_bytes_def to_bytes_def position_window_def by (simp only: if_False)
qed

lemma shuffled_index_round_eq:
  assumes H32: "\<forall>m. length (H m) = 32" and r: "r < 256"
    and i: "index < N" and N: "N \<le> 2 ^ 40"
  shows "shuffled_index_round H seed N r index = Inr (round_sigma H seed N r index)"
proof -
  define pre :: bytes where "pre = seed @ [of_nat r]"
  define pivot where "pivot = int_from_bytes (take 8 (H pre)) mod N"
  define flip where "flip = (pivot + N - index) mod N"
  define position where "position = max index flip"
  have N0: "0 < N" using i by auto
  have fl: "flip < N" using N0 by (simp add: flip_def)
  have pl: "position < 2 ^ 40" using i fl N by (simp add: position_def)
  have l: "length (H (pre @ position_window position)) = 32" using H32 by simp
  have ba: "byte_at (H (pre @ position_window position)) (position mod 256 div 8)
      = Inr (H (pre @ position_window position) ! (position mod 256 div 8))"
    unfolding byte_at_def using l byte_index_lt[of position] by simp
  have app: "seed @ [of_nat r] @ position_window position = pre @ position_window position"
    by (simp add: pre_def)
  have "shuffled_index_round H seed N r index
      = Inr (if unat (drop_bit (position mod 8)
                 (H (pre @ position_window position) ! (position mod 256 div 8))) mod 2 \<noteq> 0
             then flip else index)"
    unfolding shuffled_index_round_def int_to_bytes_round[OF r] sum.case Let_def
    apply (fold pre_def)
    apply (fold pivot_def)
    apply (fold flip_def)
    apply (fold position_def)
    apply (simp only: int_to_bytes_position[OF pl] sum.case app ba)
    done
  also have "\<dots> = Inr (round_sigma H seed N r index)"
    unfolding round_sigma_def round_image_def round_flip_def round_pivot_def swap_decision_def
      bit_decision'
    by (simp add: pre_def pivot_def flip_def position_def)
  finally show ?thesis .
qed

lemma shuffled_index_rounds_eq:
  assumes H32: "\<forall>m. length (H m) = 32" and N: "N \<le> 2 ^ 40"
  shows "\<forall>r \<in> set rs. r < 256 \<Longrightarrow> index < N
    \<Longrightarrow> shuffled_index_rounds H seed N rs index = Inr (fold (round_sigma H seed N) rs index)"
proof (induction rs arbitrary: index)
  case Nil
  then show ?case by simp
next
  case (Cons r rs)
  have r: "r < 256" using Cons.prems(1) by simp
  have rs: "\<forall>r \<in> set rs. r < 256" using Cons.prems(1) by simp
  have s: "round_sigma H seed N r index < N" using Cons.prems(2) by (rule round_sigma_lt)
  show ?case
    using shuffled_index_round_eq[OF H32 r Cons.prems(2) N, of seed] Cons.IH[OF rs s]
    by simp
qed

lemma compute_shuffled_index_eq:
  assumes H32: "\<forall>m. length (H m) = 32" and N: "N \<le> 2 ^ 40" and i: "i < N"
  shows "compute_shuffled_index H i N seed = Inr (fold (round_sigma H seed N) [0..<90] i)"
proof -
  have "\<forall>r \<in> set [0..<90]. r < (256::nat)" by simp
  from shuffled_index_rounds_eq[OF H32 N this i, of seed] show ?thesis
    using i by (simp add: compute_shuffled_index_def SHUFFLE_ROUND_COUNT_def)
qed

text \<open>
  Claim C2, as amended. For every 32-byte seed, every length \<open>N\<close> up to
  \<open>VALIDATOR_REGISTRY_LIMIT = 2^40\<close> and every \<open>i < N\<close>, \<open>unshuffle_list\<close> on the identity
  list \<open>[0..N)\<close> returns a list, \<open>compute_shuffled_index(i, N, seed)\<close> returns an index,
  and entry \<open>i\<close> of the list is that index.
\<close>

theorem unshuffle_agrees_with_shuffled_index:
  assumes "\<forall>m. length (H m) = 32" and "length seed = 32" and "N \<le> 2 ^ 40" and "i < N"
  shows "\<exists>ys. unshuffle_list H [0..<N] seed = Some (Inr ys)
             \<and> compute_shuffled_index H i N seed = Inr (ys ! i)"
proof -
  let ?c = "fold (round_sigma H seed N) [0..<90] i"
  have c: "compute_shuffled_index H i N seed = Inr ?c"
    using assms(1,3,4) by (rule compute_shuffled_index_eq)
  have cl: "?c < N" using assms(4) by (rule fold_round_sigma_lt)
  have u: "unshuffle_list H [0..<N] seed
      = Some (Inr (if length [0..<N] \<le> 1 then [0..<N]
                   else fold (round_perm H seed) (rev [0..<90]) [0..<N]))"
    using assms(1,2) by (rule unshuffle_list_eq)
  show ?thesis
  proof (cases "N \<le> 1")
    case True
    then have "?c = i" using cl assms(4) by simp
    then show ?thesis using u c True assms(4) by simp
  next
    case False
    have "fold (round_perm H seed) (rev [0..<90]) [0..<N] ! i
        = [0..<N] ! fold (round_sigma H seed (length [0..<N])) (rev (rev [0..<90])) i"
      using assms(4) by (intro fold_round_perm_nth) simp
    also have "\<dots> = ?c" using cl by simp
    finally show ?thesis using u c False by simp
  qed
qed

theorem unshuffle_agrees_with_shuffled_index_witness:
  "compute_shuffled_index example_digest 2 5 example_seed
     = Inr (projr (the (unshuffle_list example_digest [0..<5] example_seed)) ! 2)"
  using unshuffle_agrees_with_shuffled_index[of example_digest example_seed 5 2]
  by (auto simp add: example_digest_def example_seed_def)

lemma shuffled_index_round_overflow:
  assumes r: "r < 256" and i: "2 ^ 40 \<le> index"
  shows "shuffled_index_round H seed N r index = Inl OverflowError"
proof -
  define flip where "flip = (int_from_bytes (take 8 (H (seed @ [of_nat r]))) mod N + N - index) mod N"
  have "256 * 4294967296 \<le> max index flip" using i by simp
  then have "4294967296 \<le> max index flip div 256" by simp
  then have "int_to_bytes (max index flip div 256) 4 = Inl OverflowError"
    by (simp add: int_to_bytes_def to_bytes_def)
  then show ?thesis
    unfolding shuffled_index_round_def int_to_bytes_round[OF r] sum.case Let_def
    by (simp add: flip_def)
qed

lemma compute_shuffled_index_overflow:
  assumes "2 ^ 40 \<le> index" "index < N"
  shows "compute_shuffled_index H index N seed = Inl OverflowError"
proof -
  have up: "[0..<SHUFFLE_ROUND_COUNT] = 0 # [1..<90]"
    by (simp add: SHUFFLE_ROUND_COUNT_def upt_conv_Cons)
  have z: "(0::nat) < 256" by simp
  show ?thesis
    unfolding compute_shuffled_index_def up
    using assms(2) shuffled_index_round_overflow[OF z assms(1), of H seed N] by simp
qed

text \<open>
  The claim as first stated (every length \<open>N\<close>) fails above the registry limit. The bulk
  route keeps the low 32 bits of \<open>position >> 8\<close>; the single-index route converts
  \<open>position // 256\<close> to four bytes, which raises \<open>OverflowError\<close> from position \<open>2^40\<close> on.
  With \<open>N = 2^40 + 1\<close> and \<open>i = 2^40\<close> the bulk route returns a list and the single-index
  route raises.
\<close>

theorem shuffled_index_registry_limit_counterexample:
  "compute_shuffled_index example_digest 1099511627776 1099511627777 example_seed
     = Inl OverflowError
   \<and> unshuffle_list example_digest [0..<1099511627777] example_seed \<noteq> None
   \<and> \<not> isl (the (unshuffle_list example_digest [0..<1099511627777] example_seed))"
proof -
  have 1: "compute_shuffled_index example_digest 1099511627776 1099511627777 example_seed
     = Inl OverflowError"
    by (rule compute_shuffled_index_overflow) simp_all
  have h: "\<forall>m. length (example_digest m) = 32" by (simp add: example_digest_def)
  have s: "length example_seed = 32" by (simp add: example_seed_def)
  note 2 = unshuffle_list_eq[OF h s, of "[0..<1099511627777]"]
  from 1 show ?thesis unfolding 2 by simp
qed


end
